theory Spec2Isabelle
  imports Main "HOL-Library.Word"
begin

unbundle bit_operations_syntax

section \<open>Instruction model\<close>

text \<open>
  The enumeration \<^verbatim>\<open>asmLines\<close> of \<^verbatim>\<open>amdivgen.c\<close>, in the order of the source, and the
  register-usage flag \<^verbatim>\<open>paramregistersUsed\<close>.
\<close>

datatype asmLines =
    Ld_ba | Rra | Srl_a | Add_b | Ret
  | And_fc | And_f8 | And_f0 | And_e0 | And_c0 | And_80
  | Rlca | Rrca | Rla
  | And_01 | And_03 | And_07 | And_0f
  | Xor_a

datatype paramregistersUsed = Only_use_a | Destroys_b

definition MAXPOWER2 :: nat where
  "MAXPOWER2 = 24"

text \<open>
  The globals \<^verbatim>\<open>resultLines\<close>/\<^verbatim>\<open>numResultLines\<close> and
  \<^verbatim>\<open>resultLinesTemp\<close>/\<^verbatim>\<open>numResultLinesTemp\<close> are modelled as lists: the list is the
  filled prefix of the array and its length is the counter. \<^verbatim>\<open>addLine\<close> and
  \<^verbatim>\<open>addLineTemp\<close> store at the counter and increment it, that is, they append. The
  arrays of the source have 50 entries; the lists are unbounded, and the bound on
  their lengths is a theorem below.
\<close>

definition addLine :: "asmLines \<Rightarrow> asmLines list \<Rightarrow> asmLines list" where
  "addLine asmInstruction resultLines = resultLines @ [asmInstruction]"

definition addLineTemp :: "asmLines \<Rightarrow> asmLines list \<Rightarrow> asmLines list" where
  "addLineTemp asmInstruction resultLinesTemp = resultLinesTemp @ [asmInstruction]"

section \<open>Cost evaluator\<close>

text \<open>
  \<^verbatim>\<open>measureCode\<close>: the size and the time that its \<^verbatim>\<open>switch\<close> adds for one instruction,
  the loop over \<^verbatim>\<open>resultLines\<close>, and the two totals, which start from 0.
\<close>

fun lineSize :: "asmLines \<Rightarrow> int" where
  "lineSize Ret = 1"
| "lineSize Ld_ba = 1" | "lineSize Rra = 1" | "lineSize Add_b = 1" | "lineSize Rlca = 1"
| "lineSize Rrca = 1" | "lineSize Rla = 1" | "lineSize Xor_a = 1"
| "lineSize _ = 2"

fun lineSpeed :: "asmLines \<Rightarrow> int" where
  "lineSpeed Ret = 3"
| "lineSpeed Ld_ba = 1" | "lineSpeed Rra = 1" | "lineSpeed Add_b = 1" | "lineSpeed Rlca = 1"
| "lineSpeed Rrca = 1" | "lineSpeed Rla = 1" | "lineSpeed Xor_a = 1"
| "lineSpeed _ = 2"

fun measure_loop :: "asmLines list \<Rightarrow> int \<times> int \<Rightarrow> int \<times> int" where
  "measure_loop [] (sizeResult, speedResult) = (sizeResult, speedResult)"
| "measure_loop (l # ls) (sizeResult, speedResult) =
     measure_loop ls (sizeResult + lineSize l, speedResult + lineSpeed l)"

definition measureCode :: "asmLines list \<Rightarrow> int \<times> int" where
  "measureCode resultLines = measure_loop resultLines (0, 0)"

section \<open>Peephole optimizer\<close>

text \<open>
  The two counting loops of \<^verbatim>\<open>optimizeCode\<close> read \<^verbatim>\<open>resultLines[j]\<close> until an entry
  is not \<^verbatim>\<open>_srl_a\<close>. The sequences that \<^verbatim>\<open>generateCode\<close> passes end with the return,
  where the count stops; on any other list the model stops the count at the end of the
  list, as the source does when the entry beyond the counter is the zero of the global
  array, which is no instruction.
\<close>

function count_srl :: "asmLines list \<Rightarrow> nat \<Rightarrow> nat" where
  "count_srl ls j = (if j < length ls \<and> ls ! j = Srl_a then Suc (count_srl ls (Suc j)) else 0)"
  by pat_completeness auto
termination
  by (relation "measure (\<lambda>(ls, j). length ls - j)") auto

declare count_srl.simps [simp del]

text \<open>
  The inner \<^verbatim>\<open>switch(srlaInARow)\<close> of each case: the instructions added to the
  temporary sequence and the value of \<^verbatim>\<open>modnextline\<close>.
\<close>

definition rra_switch :: "nat \<Rightarrow> asmLines list \<times> nat" where
  "rra_switch srlaInARow =
     (if srlaInARow = 4 then ([Rla, Rla, Rla, Rla, And_0f], 4)
      else if srlaInARow = 5 then ([Rla, Rla, Rla, And_07], 5)
      else if srlaInARow = 6 then ([Rla, Rla, And_03], 6)
      else if srlaInARow = 7 then ([Rla, And_01], 7)
      else ([Rra], 0))"

definition srl_switch :: "nat \<Rightarrow> asmLines list \<times> nat" where
  "srl_switch srlaInARow =
     (if srlaInARow = 3 then ([And_f8, Rrca, Rrca, Rrca], 2)
      else if srlaInARow = 4 then ([And_f0, Rrca, Rrca, Rrca, Rrca], 3)
      else if srlaInARow = 5 then ([And_e0, Rlca, Rlca, Rlca], 4)
      else if srlaInARow = 6 then ([And_c0, Rlca, Rlca], 5)
      else if srlaInARow = 7 then ([And_80, Rlca], 6)
      else if srlaInARow = 8 then ([Xor_a], 7)
      else ([Srl_a], 0))"

definition opt_step :: "asmLines list \<Rightarrow> nat \<Rightarrow> asmLines list \<times> nat" where
  "opt_step ls i =
     (case ls ! i of
        Rra \<Rightarrow> rra_switch (count_srl ls (i + 1))
      | Srl_a \<Rightarrow> srl_switch (count_srl ls i)
      | l \<Rightarrow> ([l], 0))"

text \<open>
  The scan: one step at index \<^verbatim>\<open>i\<close> adds its instructions with \<^verbatim>\<open>addLineTemp\<close>, in
  order, and moves on by \<^verbatim>\<open>modnextline\<close> and the increment of the loop.
\<close>

function opt_loop :: "asmLines list \<Rightarrow> nat \<Rightarrow> asmLines list \<Rightarrow> asmLines list" where
  "opt_loop ls i tmp =
     (if i < length ls
      then (case opt_step ls i of
              (added, modnextline) \<Rightarrow>
                opt_loop ls (i + modnextline + 1) (fold addLineTemp added tmp))
      else tmp)"
  by pat_completeness auto
termination
  by (relation "measure (\<lambda>(ls, i, tmp). length ls - i)") auto

declare opt_loop.simps [simp del]

text \<open>
  \<^verbatim>\<open>optimizeCode\<close> resets the temporary counter, scans, resets the result counter and
  copies the temporary sequence back.
\<close>

definition optimizeCode :: "asmLines list \<Rightarrow> asmLines list" where
  "optimizeCode resultLines = fold addLine (opt_loop resultLines 0 []) []"

section \<open>Power-of-two decomposition and sequence builder\<close>

text \<open>
  The first loop of \<^verbatim>\<open>generateCode\<close>: \<^verbatim>\<open>arrrayPowersOf2\<close> filled with the exponents of
  \<^verbatim>\<open>i\<close>, from \<^verbatim>\<open>MAXPOWER2\<close> down. The list is the filled prefix of the array and
  \<^verbatim>\<open>numpowers\<close> is its length.
\<close>

function decompose_loop :: "nat \<Rightarrow> int \<Rightarrow> int \<Rightarrow> nat list" where
  "decompose_loop j i powtwo =
     (if j < MAXPOWER2 + 1
      then (if i > powtwo - 1
            then (MAXPOWER2 - j) # decompose_loop (j + 1) (i - powtwo) (powtwo div 2)
            else decompose_loop (j + 1) i (powtwo div 2))
      else [])"
  by pat_completeness auto
termination
  by (relation "measure (\<lambda>(j, i, powtwo). MAXPOWER2 + 1 - j)") auto

declare decompose_loop.simps [simp del]

definition decompose :: "int \<Rightarrow> nat list" where
  "decompose i = decompose_loop 0 i (2 ^ MAXPOWER2)"

text \<open>
  The second loop: \<^verbatim>\<open>for (j = numpowers-1; j > 0; j--)\<close>, which lowers
  \<^verbatim>\<open>numpowers\<close>. The test \<^verbatim>\<open>j == numpowers-1\<close> reads the current value of
  \<^verbatim>\<open>numpowers\<close>.
\<close>

fun prune_loop :: "nat list \<Rightarrow> nat \<Rightarrow> nat \<Rightarrow> nat" where
  "prune_loop arr 0 numpowers = numpowers"
| "prune_loop arr (Suc j') numpowers =
     (let j = Suc j';
          difference = int (arr ! (j - 1)) - int (arr ! j)
      in prune_loop arr j'
           (if (j = numpowers - 1 \<and> difference > 7) \<or> difference > 8 then j else numpowers))"

definition pruned_numpowers :: "nat list \<Rightarrow> nat" where
  "pruned_numpowers arr = prune_loop arr (length arr - 1) (length arr)"

text \<open>\<^verbatim>\<open>while (difference>0) { addLine(_srl_a); difference--; }\<close>\<close>

function srl_while :: "int \<Rightarrow> asmLines list \<Rightarrow> asmLines list" where
  "srl_while difference resultLines =
     (if difference > 0 then srl_while (difference - 1) (addLine Srl_a resultLines)
      else resultLines)"
  by pat_completeness auto
termination
  by (relation "measure (\<lambda>(difference, resultLines). nat difference)") auto

declare srl_while.simps [simp del]

text \<open>
  The loop \<^verbatim>\<open>for (j = numpowers-1; j+1 > 0; j--)\<close>; its body does nothing at
  \<^verbatim>\<open>j = 0\<close>.
\<close>

definition term_body :: "nat list \<Rightarrow> nat \<Rightarrow> nat \<Rightarrow> asmLines list \<Rightarrow> asmLines list" where
  "term_body arr numpowers j resultLines =
     (let difference = int (arr ! (j - 1)) - int (arr ! j);
          resultLines1 = (if j = numpowers - 1 then addLine Srl_a resultLines
                          else addLine Rra resultLines)
      in addLine Add_b (srl_while (difference - 1) resultLines1))"

fun term_loop :: "nat list \<Rightarrow> nat \<Rightarrow> nat \<Rightarrow> asmLines list \<Rightarrow> asmLines list" where
  "term_loop arr numpowers 0 resultLines = resultLines"
| "term_loop arr numpowers (Suc j') resultLines =
     term_loop arr numpowers j' (term_body arr numpowers (Suc j') resultLines)"

text \<open>
  The instructions of \<^verbatim>\<open>generateCode\<close> up to and including \<^verbatim>\<open>addLine(_ret)\<close>, with
  the final value of \<^verbatim>\<open>numpowers\<close>. The source reads \<^verbatim>\<open>arrrayPowersOf2[0]\<close> also
  when no exponent was stored (\<^verbatim>\<open>i\<close> not positive), which is a read of an
  uninitialised local: the model has no result there.
\<close>

definition buildCode :: "asmLines list \<Rightarrow> int \<Rightarrow> nat \<Rightarrow> (asmLines list \<times> nat) option" where
  "buildCode resultLines i divpow =
     (let arr = decompose i;
          numpowers = pruned_numpowers arr
      in if arr = [] then None
         else if int divpow - int (arr ! 0) > 8
         then Some (addLine Ret (addLine Xor_a resultLines), 1)
         else
           (let l1 = (if numpowers > 1 then addLine Ld_ba resultLines else resultLines);
                l2 = term_loop arr numpowers (numpowers - 1) l1;
                difference = int divpow - int (arr ! 0) - 1;
                l3 = (if numpowers \<noteq> 1 then addLine Rra l2
                      else if \<not> (numpowers = 1 \<and> divpow = arr ! 0) then addLine Srl_a l2
                      else l2)
            in Some (addLine Ret (srl_while difference l3), numpowers)))"

text \<open>
  The routine that \<^verbatim>\<open>generateCode\<close> prints: the instructions (\<^verbatim>\<open>printlines\<close>) and the
  size, time and register note of the header. The parameters \<^verbatim>\<open>num\<close> and \<^verbatim>\<open>div\<close>
  only label the header and are left out.
\<close>

record routine =
  code :: "asmLines list"
  sizeResult :: int
  speedResult :: int
  registersUsed :: paramregistersUsed

definition generateCode :: "asmLines list \<Rightarrow> int \<Rightarrow> nat \<Rightarrow> routine option" where
  "generateCode resultLines i divpow =
     (case buildCode resultLines i divpow of
        None \<Rightarrow> None
      | Some (built, numpowers) \<Rightarrow>
          (let optimized = optimizeCode built;
               (sz, sp) = measureCode optimized
           in Some \<lparr> code = optimized, sizeResult = sz, speedResult = sp,
                     registersUsed = (if numpowers > 1 then Destroys_b else Only_use_a) \<rparr>))"

section \<open>Approximation search\<close>

text \<open>
  \<^verbatim>\<open>findApproximation\<close> for a divisor with an integer value. The test
  \<^verbatim>\<open>(int)((j*1000)/(i*1000)) != ((value*j)/div)\<close> and \<^verbatim>\<open>value=(div/i)+1\<close> are computed
  by the source in single precision; for an integer \<^verbatim>\<open>i\<close> from 1 on they are the
  integer quotients written here. The state is the current \<^verbatim>\<open>resultLines\<close> and the
  routines printed so far; the loop is left by setting \<^verbatim>\<open>dividerBase2\<close> to 200.
\<close>

definition approx_value :: "int \<Rightarrow> nat \<Rightarrow> int" where
  "approx_value i dividerBase2 = (2 ^ dividerBase2) div i + 1"

definition approx_correct :: "int \<Rightarrow> nat \<Rightarrow> bool" where
  "approx_correct i dividerBase2 =
     list_all (\<lambda>j. j div i = (approx_value i dividerBase2 * j) div (2 ^ dividerBase2)) [0..255]"

definition call_generateCode ::
  "int \<Rightarrow> nat \<Rightarrow> asmLines list \<times> routine list \<Rightarrow> (asmLines list \<times> routine list) option" where
  "call_generateCode i divpow st =
     (case generateCode (fst st) i divpow of
        None \<Rightarrow> None
      | Some r \<Rightarrow> Some (code r, snd st @ [r]))"

definition search_step ::
  "int \<Rightarrow> nat \<Rightarrow> asmLines list \<times> routine list
     \<Rightarrow> ((asmLines list \<times> routine list) \<times> nat) option" where
  "search_step i dividerBase2 st =
     (case (if i = 2 ^ dividerBase2
            then map_option (\<lambda>s. (s, 200)) (call_generateCode 1 dividerBase2 st)
            else Some (st, dividerBase2)) of
        None \<Rightarrow> None
      | Some (st1, k1) \<Rightarrow>
          (if approx_correct i dividerBase2
           then map_option (\<lambda>s. (s, 200)) (call_generateCode (approx_value i dividerBase2) k1 st1)
           else Some (st1, k1)))"

function search_loop ::
  "int \<Rightarrow> nat \<Rightarrow> asmLines list \<times> routine list \<Rightarrow> (asmLines list \<times> routine list) option" where
  "search_loop i dividerBase2 st =
     (if dividerBase2 \<le> MAXPOWER2
      then (case search_step i dividerBase2 st of
              None \<Rightarrow> None
            | Some (st', k') \<Rightarrow> search_loop i (k' + 1) st')
      else Some st)"
  by pat_completeness auto
termination
  by (relation "measure (\<lambda>(i, dividerBase2, st). MAXPOWER2 + 1 - dividerBase2)")
     (auto simp: search_step_def MAXPOWER2_def split: if_splits option.splits prod.splits)

declare search_loop.simps [simp del]

text \<open>The routines printed by \<^verbatim>\<open>findApproximation\<close> in a fresh process.\<close>

definition findApproximation :: "int \<Rightarrow> routine list option" where
  "findApproximation i = map_option snd (search_loop i 0 ([], []))"

section \<open>The target machine\<close>

text \<open>
  The program only prints mnemonics; the processor that runs them is not part of the
  repository. Its state, as far as the routines use it: the 8-bit accumulator, the 8-bit
  auxiliary register and the carry flag.
\<close>

record z80 =
  regA :: "8 word"
  regB :: "8 word"
  carry :: bool

text \<open>
  Modelled from the spec: the one-bit shifts of the accumulator that the rotate and shift
  instructions perform, to the right with a given bit entering at bit 7 and to the left
  with a given bit entering at bit 0.
\<close>

definition shift_right :: "bool \<Rightarrow> 8 word \<Rightarrow> 8 word" where
  "shift_right b7 a = drop_bit 1 a OR (if b7 then 128 else 0)"

definition shift_left :: "bool \<Rightarrow> 8 word \<Rightarrow> 8 word" where
  "shift_left b0 a = push_bit 1 a OR (if b0 then 1 else 0)"

text \<open>Modelled from the spec: mask-with-constant, which also clears the carry.\<close>

definition and_const :: "8 word \<Rightarrow> z80 \<Rightarrow> z80" where
  "and_const m s = s\<lparr>regA := regA s AND m, carry := False\<rparr>"

text \<open>
  Modelled from the spec: the execution of one emitted instruction, which the repository
  does not contain. Each instruction acts as its mnemonic in \<^verbatim>\<open>printlines\<close> and its name in
  the specification say: load-register-from-accumulator (\<^verbatim>\<open>ld b,a\<close>),
  rotate-right-through-carry (\<^verbatim>\<open>rra\<close>: the carry enters at bit 7, bit 0 leaves into the
  carry), shift-right-logical (\<^verbatim>\<open>srl a\<close>: 0 enters at bit 7, bit 0 leaves into the carry),
  add-other-register-to-accumulator (\<^verbatim>\<open>add b\<close>: the carry is the overflow of the 8-bit
  sum), return, mask-with-constant (\<^verbatim>\<open>and\<close>), rotate-left-circular (\<^verbatim>\<open>rlca\<close>: bit 7
  enters at bit 0 and is copied to the carry), rotate-right-circular (\<^verbatim>\<open>rrca\<close>: bit 0
  enters at bit 7 and is copied to the carry), rotate-left-through-carry (\<^verbatim>\<open>rla\<close>: the
  carry enters at bit 0, bit 7 leaves into the carry) and clear-accumulator (\<^verbatim>\<open>xor a\<close>).
\<close>

fun exec :: "asmLines \<Rightarrow> z80 \<Rightarrow> z80" where
  "exec Ld_ba s = s\<lparr>regB := regA s\<rparr>"
| "exec Rra s = s\<lparr>regA := shift_right (carry s) (regA s), carry := bit (regA s) 0\<rparr>"
| "exec Srl_a s = s\<lparr>regA := shift_right False (regA s), carry := bit (regA s) 0\<rparr>"
| "exec Add_b s = s\<lparr>regA := regA s + regB s,
                    carry := (256 \<le> unat (regA s) + unat (regB s))\<rparr>"
| "exec Ret s = s"
| "exec And_fc s = and_const 252 s"
| "exec And_f8 s = and_const 248 s"
| "exec And_f0 s = and_const 240 s"
| "exec And_e0 s = and_const 224 s"
| "exec And_c0 s = and_const 192 s"
| "exec And_80 s = and_const 128 s"
| "exec Rlca s = s\<lparr>regA := shift_left (bit (regA s) 7) (regA s), carry := bit (regA s) 7\<rparr>"
| "exec Rrca s = s\<lparr>regA := shift_right (bit (regA s) 0) (regA s), carry := bit (regA s) 0\<rparr>"
| "exec Rla s = s\<lparr>regA := shift_left (carry s) (regA s), carry := bit (regA s) 7\<rparr>"
| "exec And_01 s = and_const 1 s"
| "exec And_03 s = and_const 3 s"
| "exec And_07 s = and_const 7 s"
| "exec And_0f s = and_const 15 s"
| "exec Xor_a s = s\<lparr>regA := 0, carry := False\<rparr>"

text \<open>
  Modelled from the spec: running a routine, the instructions in order up to the first
  return.
\<close>

fun run :: "asmLines list \<Rightarrow> z80 \<Rightarrow> z80" where
  "run [] s = s"
| "run (l # ls) s = (if l = Ret then s else run ls (exec l s))"

section \<open>Auxiliary notions\<close>

text \<open>The integer that a list of exponents stands for: the sum of the powers of two.\<close>

definition pow_sum :: "nat list \<Rightarrow> int" where
  "pow_sum es = sum_list (map (\<lambda>e. 2 ^ e) es)"

text \<open>
  The pruning of the decomposition as a function on lists, most significant exponent
  first: the tail is pruned first; then everything below the head is dropped when the gap
  under the head exceeds 8, or exceeds 7 and the pruned tail has kept a single term (the
  gap is then the one next to the least significant term still retained).
\<close>

fun prune_list :: "nat list \<Rightarrow> nat list" where
  "prune_list (e # f # rest) =
     (let r = prune_list (f # rest)
      in if (length r = 1 \<and> int e - int f > 7) \<or> int e - int f > 8 then [e] else e # r)"
| "prune_list es = es"

text \<open>
  The pruning rule in the words of the specification: the terms below a gap are dropped
  when the gap exceeds 8, or exceeds 7 for the gap next to the most significant exponent.
\<close>

fun prune_claimed_from :: "bool \<Rightarrow> nat list \<Rightarrow> nat list" where
  "prune_claimed_from topmost (e # f # rest) =
     (if int e - int f > 8 \<or> (topmost \<and> int e - int f > 7) then [e]
      else e # prune_claimed_from False (f # rest))"
| "prune_claimed_from topmost es = es"

definition prune_claimed :: "nat list \<Rightarrow> nat list" where
  "prune_claimed es = prune_claimed_from True es"

text \<open>
  The scan of \<^verbatim>\<open>optimizeCode\<close> as a function on the list that is still to be read: the
  instructions that replace the head and the run of shift-rights after it, followed by the
  scan of what comes after the instructions consumed.
\<close>

function peephole :: "asmLines list \<Rightarrow> asmLines list" where
  "peephole [] = []"
| "peephole (l # ls) =
     (case (case l of
              Rra \<Rightarrow> rra_switch (length (takeWhile (\<lambda>x. x = Srl_a) ls))
            | Srl_a \<Rightarrow> srl_switch (Suc (length (takeWhile (\<lambda>x. x = Srl_a) ls)))
            | _ \<Rightarrow> ([l], 0)) of
        (added, modnextline) \<Rightarrow> added @ peephole (drop modnextline ls))"
  by pat_completeness auto

termination
  by (relation "measure length") auto

declare peephole.simps [simp del]

text \<open>
  The shape that the builder keeps: every shift-right and every rotate-right-through-carry
  is followed by a shift-right, an add or the return (or by nothing).
\<close>

definition is_shift :: "asmLines \<Rightarrow> bool" where
  "is_shift l = (l = Srl_a \<or> l = Rra)"

definition after_shift :: "asmLines \<Rightarrow> bool" where
  "after_shift l = (l = Srl_a \<or> l = Add_b \<or> l = Ret)"

fun shift_ok :: "asmLines list \<Rightarrow> bool" where
  "shift_ok (x # y # ls) = ((if is_shift x then after_shift y else True) \<and> shift_ok (y # ls))"
| "shift_ok ls = True"

text \<open>Two machine states with the same registers; their carry flags may differ.\<close>

definition same_regs :: "z80 \<Rightarrow> z80 \<Rightarrow> bool" where
  "same_regs s t = (regA s = regA t \<and> regB s = regB t)"

text \<open>
  The instructions that one pass of the term loop of \<^verbatim>\<open>generateCode\<close> appends: the first
  shift, the remaining shift-rights of the gap and the add; the first shift of the pass at
  index \<open>j\<close>; and the instructions appended after the loop, before the return.
\<close>

definition segment :: "asmLines \<Rightarrow> int \<Rightarrow> asmLines list" where
  "segment x difference = x # replicate (nat (difference - 1)) Srl_a @ [Add_b]"

definition first_shift :: "nat \<Rightarrow> nat \<Rightarrow> asmLines" where
  "first_shift numpowers j = (if j = numpowers - 1 then Srl_a else Rra)"

definition final_shifts :: "nat list \<Rightarrow> nat \<Rightarrow> nat \<Rightarrow> asmLines list" where
  "final_shifts arr numpowers divpow =
     (if numpowers \<noteq> 1 then [Rra] else if divpow \<noteq> arr ! 0 then [Srl_a] else []) @
     replicate (nat (int divpow - int (arr ! 0) - 1)) Srl_a"

text \<open>The 9-bit value that the carry flag and the accumulator hold together.\<close>

definition val9 :: "z80 \<Rightarrow> int" where
  "val9 s = uint (regA s) + (if carry s then 256 else 0)"

text \<open>The instructions that touch the auxiliary register.\<close>

definition uses_b :: "asmLines \<Rightarrow> bool" where
  "uses_b l = (l = Ld_ba \<or> l = Add_b)"

text \<open>The pruned decomposition of a multiplier: the exponents that the pruning loop retains.\<close>

definition pruned_decomposition :: "int \<Rightarrow> nat list" where
  "pruned_decomposition i = take (pruned_numpowers (decompose i)) (decompose i)"

text \<open>
  The approximation search in the words of the specification: a candidate exponent passes
  when the quotient by the divisor and the quotient of the product with the multiplier
  \<open>2 ^ k div d + 1\<close> by \<open>2 ^ k\<close> agree on every \<open>j\<close> from 0 to 255; the first exponent
  from 0 to \<^verbatim>\<open>MAXPOWER2\<close> that passes is selected and code is generated from its
  multiplier; when none passes nothing is generated.
\<close>

definition passes :: "int \<Rightarrow> nat \<Rightarrow> bool" where
  "passes d k = (\<forall>j \<in> {0..255}. j div d = ((2 ^ k div d + 1) * j) div 2 ^ k)"

definition first_passing :: "int \<Rightarrow> nat option" where
  "first_passing d = find (passes d) [0..<MAXPOWER2 + 1]"

definition search_spec :: "int \<Rightarrow> routine list option" where
  "search_spec d =
     (case first_passing d of
        None \<Rightarrow> Some []
      | Some k \<Rightarrow> map_option (\<lambda>r. [r]) (generateCode [] (2 ^ k div d + 1) k))"

section \<open>Decomposition\<close>

lemma pow_sum_simps [simp]: "pow_sum [] = 0" "pow_sum (e # es) = 2 ^ e + pow_sum es"
  by (simp_all add: pow_sum_def)

lemma decompose_loop_correct:
  "j \<le> 25 \<Longrightarrow> powtwo = 2 ^ (25 - j) div 2 \<Longrightarrow> 0 \<le> i \<Longrightarrow> i < 2 ^ (25 - j) \<Longrightarrow>
   pow_sum (decompose_loop j i powtwo) = i \<and>
   sorted_wrt (>) (decompose_loop j i powtwo) \<and>
   (\<forall>e \<in> set (decompose_loop j i powtwo). e + j \<le> 24)"
proof (induction j i powtwo rule: decompose_loop.induct)
  case (1 j i powtwo)
  show ?case
  proof (cases "j < 25")
    case False
    with 1(3-) have "j = 25" "i = 0" by auto
    then show ?thesis by (simp add: decompose_loop.simps [of 25] MAXPOWER2_def)
  next
    case True
    then have sj: "25 - j = Suc (24 - j)" by arith
    have p2: "(2::int) ^ (25 - j) = 2 * 2 ^ (24 - j)" by (simp add: sj)
    have pt: "powtwo = 2 ^ (24 - j)" using 1(4) by (simp add: sj)
    have nxt: "powtwo div 2 = 2 ^ (25 - (j + 1)) div 2" unfolding pt by simp
    have p3: "(2::int) ^ (25 - (j + 1)) = 2 ^ (24 - j)" by simp
    show ?thesis
    proof (cases "i > powtwo - 1")
      case big: True
      have eq: "decompose_loop j i powtwo = (24 - j) # decompose_loop (j + 1) (i - powtwo) (powtwo div 2)"
        using True big by (subst decompose_loop.simps) (simp add: MAXPOWER2_def)
      have IH: "pow_sum (decompose_loop (j + 1) (i - powtwo) (powtwo div 2)) = i - powtwo \<and>
        sorted_wrt (>) (decompose_loop (j + 1) (i - powtwo) (powtwo div 2)) \<and>
        (\<forall>e \<in> set (decompose_loop (j + 1) (i - powtwo) (powtwo div 2)). e + (j + 1) \<le> 24)"
      proof (rule 1(1))
        show "j < MAXPOWER2 + 1" using True by (simp add: MAXPOWER2_def)
        show "powtwo - 1 < i" by (rule big)
        show "j + 1 \<le> 25" using True by simp
        show "powtwo div 2 = 2 ^ (25 - (j + 1)) div 2" by (rule nxt)
        show "0 \<le> i - powtwo" using big by simp
        show "i - powtwo < 2 ^ (25 - (j + 1))" unfolding p3 using 1(6) pt p2 by simp
      qed
      show ?thesis unfolding eq using IH pt True by auto
    next
      case small: False
      have eq: "decompose_loop j i powtwo = decompose_loop (j + 1) i (powtwo div 2)"
        using True small by (subst decompose_loop.simps) (simp add: MAXPOWER2_def)
      have IH: "pow_sum (decompose_loop (j + 1) i (powtwo div 2)) = i \<and>
        sorted_wrt (>) (decompose_loop (j + 1) i (powtwo div 2)) \<and>
        (\<forall>e \<in> set (decompose_loop (j + 1) i (powtwo div 2)). e + (j + 1) \<le> 24)"
      proof (rule 1(2))
        show "j < MAXPOWER2 + 1" using True by (simp add: MAXPOWER2_def)
        show "\<not> powtwo - 1 < i" by (rule small)
        show "j + 1 \<le> 25" using True by simp
        show "powtwo div 2 = 2 ^ (25 - (j + 1)) div 2" by (rule nxt)
        show "0 \<le> i" by (rule 1(5))
        show "i < 2 ^ (25 - (j + 1))" unfolding p3 using small pt by simp
      qed
      show ?thesis unfolding eq using IH by auto
    qed
  qed
qed

lemma decompose_facts:
  "0 \<le> v \<Longrightarrow> v < 2 ^ 25 \<Longrightarrow>
   sorted_wrt (>) (decompose v) \<and> pow_sum (decompose v) = v"
  using decompose_loop_correct [of 0 "2 ^ 24" v]
  by (simp add: decompose_def MAXPOWER2_def)

text \<open>
  C7: for every integer \<open>v\<close> from 0 to \<open>2 ^ (MAXPOWER2 + 1) - 1\<close>, the unpruned
  decomposition computed by the first loop of \<^verbatim>\<open>generateCode\<close> is a strictly decreasing
  sequence of exponents, each at most 24 (and, being natural numbers, at least 0), whose
  powers of two sum to exactly \<open>v\<close>.
\<close>

theorem decompose_correct:
  "0 \<le> v \<Longrightarrow> v \<le> 2 ^ (MAXPOWER2 + 1) - 1 \<Longrightarrow>
   sorted_wrt (>) (decompose v) \<and> (\<forall>e \<in> set (decompose v). e \<le> 24) \<and>
   pow_sum (decompose v) = v"
  using decompose_loop_correct [of 0 "2 ^ 24" v]
  by (simp add: decompose_def MAXPOWER2_def)

theorem decompose_correct_witness:
  "(0::int) \<le> 1029 \<and> (1029::int) \<le> 2 ^ (MAXPOWER2 + 1) - 1 \<and>
   sorted_wrt (>) (decompose 1029) \<and> list_all (\<lambda>e. e \<le> 24) (decompose 1029) \<and>
   pow_sum (decompose 1029) = 1029"
  using decompose_correct [of 1029] by (simp add: MAXPOWER2_def list_all_iff)

section \<open>Basic facts about the emitted lists\<close>

lemma srl_while_eq: "srl_while d ls = ls @ replicate (nat d) Srl_a"
proof (induction d ls rule: srl_while.induct)
  case (1 d ls)
  show ?case
  proof (cases "d > 0")
    case True
    then have "nat d = Suc (nat (d - 1))" by simp
    with 1 True show ?thesis
      by (subst srl_while.simps) (simp add: addLine_def replicate_append_same)
  next
    case False
    then show ?thesis by (subst srl_while.simps) simp
  qed
qed

lemma fold_addLine: "fold addLine xs ys = ys @ xs"
  by (induction xs arbitrary: ys) (simp_all add: addLine_def)

lemma fold_addLineTemp: "fold addLineTemp xs ys = ys @ xs"
  by (induction xs arbitrary: ys) (simp_all add: addLineTemp_def)

section \<open>Pruning\<close>

lemma prune_list_prefix: "prune_list es = take (length (prune_list es)) es"
  by (induction es rule: prune_list.induct) (auto simp: Let_def)

lemma prune_list_nonempty: "es \<noteq> [] \<Longrightarrow> prune_list es \<noteq> []"
  by (induction es rule: prune_list.induct) (auto simp: Let_def)

lemma prune_list_hd: "prune_list (e # es) = e # tl (prune_list (e # es))"
  by (cases es) (auto simp: Let_def)

lemma prune_list_length_le: "length (prune_list es) \<le> length es"
  by (induction es rule: prune_list.induct) (auto simp: Let_def)

lemma prune_loop_list:
  "j < length arr \<Longrightarrow>
   prune_loop arr j (j + length (prune_list (drop j arr))) = length (prune_list arr)"
proof (induction j)
  case 0
  then show ?case by simp
next
  case (Suc j)
  then have lt: "j < length arr" "Suc j < length arr" by simp_all
  have d1: "drop j arr = arr ! j # drop (Suc j) arr"
    using lt by (simp add: Cons_nth_drop_Suc)
  have d2: "drop (Suc j) arr = arr ! Suc j # drop (Suc (Suc j)) arr"
    using lt by (simp add: Cons_nth_drop_Suc)
  define r where "r = prune_list (drop (Suc j) arr)"
  have rne: "r \<noteq> []" unfolding r_def d2 by (rule prune_list_nonempty) simp
  have "prune_list (arr ! j # arr ! Suc j # drop (Suc (Suc j)) arr) =
    (if (length r = 1 \<and> int (arr ! j) - int (arr ! Suc j) > 7) \<or> int (arr ! j) - int (arr ! Suc j) > 8
     then [arr ! j] else arr ! j # r)"
    unfolding r_def d2 by (simp add: Let_def)
  then have pl: "prune_list (drop j arr) =
    (if (length r = 1 \<and> int (arr ! j) - int (arr ! Suc j) > 7) \<or> int (arr ! j) - int (arr ! Suc j) > 8
     then [arr ! j] else arr ! j # r)"
    using d1 d2 by simp
  have "prune_loop arr (Suc j) (Suc j + length r) =
        prune_loop arr j (j + length (prune_list (drop j arr)))"
    using rne by (cases r) (auto simp: Let_def pl)
  then show ?case using Suc.IH lt unfolding r_def by simp
qed

lemma pruned_numpowers_eq: "pruned_numpowers arr = length (prune_list arr)"
proof (cases "arr = []")
  case True
  then show ?thesis by (simp add: pruned_numpowers_def)
next
  case False
  then have l: "length arr - 1 < length arr" by (cases arr) simp_all
  have "drop (length arr - 1) arr = [last arr]"
    using False by (induction arr) (auto simp: drop_Cons')
  then have "length (prune_list (drop (length arr - 1) arr)) = 1" by simp
  with prune_loop_list [OF l] False show ?thesis
    by (cases arr) (simp_all add: pruned_numpowers_def)
qed

lemma take_pruned_numpowers: "take (pruned_numpowers arr) arr = prune_list arr"
  using prune_list_prefix [of arr] by (simp add: pruned_numpowers_eq)

lemma decompose_1029: "decompose 1029 = [10, 2, 0]"
  by code_simp

lemma decompose_1538: "decompose 1538 = [10, 9, 1]"
  by code_simp

text \<open>
  C4, as stated, fails: for the multiplier 1029 = 2^10 + 2^2 + 2^0 the gap next to the most
  significant exponent is 8, and the loop keeps all three terms; for 1538 = 2^10 + 2^9 + 2^1
  the gap of 8 is not next to the most significant exponent, and the loop drops the last
  term.
\<close>

theorem prune_claimed_counterexample:
  "take (pruned_numpowers (decompose 1029)) (decompose 1029) \<noteq> prune_claimed (decompose 1029) \<and>
   take (pruned_numpowers (decompose 1538)) (decompose 1538) \<noteq> prune_claimed (decompose 1538)"
  by (simp add: decompose_1029 decompose_1538 prune_claimed_def pruned_numpowers_def)

text \<open>
  C4, amended: in the pruning pass, walking from the least significant term backward, all
  smaller terms are dropped when the gap between two consecutive exponents exceeds 8, or
  exceeds 7 for the gap next to the least significant term retained at that point. The
  exponents that the loop of \<^verbatim>\<open>generateCode\<close> retains are those of \<open>prune_list\<close>.
\<close>

theorem prune_loop_refines:
  "take (pruned_numpowers arr) arr = prune_list arr"
  by (rule take_pruned_numpowers)

section \<open>The target machine: bits and values\<close>

lemma w128: "(128 :: 8 word) = push_bit 7 1" by simp

lemma bit_shift_right:
  "n < 8 \<Longrightarrow> bit (shift_right b a) n = (if n = 7 then b else bit a (Suc n))"
  unfolding shift_right_def w128
  by (cases b) (auto simp: bit_simps simp del: push_bit_of_1 push_bit_of_Suc_0 dest: bit_imp_le_length)

lemma bit_shift_left:
  "n < 8 \<Longrightarrow> bit (shift_left b a) n = (if n = 0 then b else bit a (n - 1))"
proof -
  have "push_bit 1 a = 2 * a" by simp
  then show "n < 8 \<Longrightarrow> bit (shift_left b a) n = (if n = 0 then b else bit a (n - 1))"
    unfolding shift_left_def
    by (cases b) (auto simp: bit_or_iff bit_double_iff bit_1_iff simp del: push_bit_Suc)
qed

lemma shift_right_plus:
  "shift_right b a = drop_bit 1 a + (if b then 128 else 0)"
proof -
  have "drop_bit 1 a AND (128 :: 8 word) = 0"
    unfolding w128 by (rule bit_word_eqI) (auto simp: bit_simps simp del: push_bit_of_1 push_bit_of_Suc_0 dest: bit_imp_le_length)
  then have "drop_bit 1 a + 128 = drop_bit 1 a OR 128"
    by (rule disjunctive_add_eq_or)
  then show ?thesis by (simp add: shift_right_def)
qed

lemma unat_drop1: "unat (drop_bit 1 (a :: 8 word)) = unat a div 2"
  by (simp only: unat_drop_bit_eq) (simp add: drop_bit_eq_div)

lemma unat_shift_right:
  "unat (shift_right b a) = (unat a + (if b then 256 else 0)) div 2"
proof (cases b)
  case True
  have lt: "unat a < 256" using unsigned_less [of a] by simp
  have "unat (drop_bit 1 a + 128) = (unat (drop_bit 1 a) + 128) mod 256"
    by (simp only: unat_word_ariths) simp
  also have "\<dots> = (unat a div 2 + 128) mod 256" by (simp only: unat_drop1)
  also have "\<dots> = unat a div 2 + 128" using lt by (intro mod_less) linarith
  also have "\<dots> = (unat a + 256) div 2" by linarith
  finally have "unat (drop_bit 1 a + 128) = (unat a + 256) div 2" .
  with True show ?thesis by (simp only: shift_right_plus if_True)
next
  case False
  have "unat (drop_bit 1 a + 0) = unat a div 2" by (simp only: add_0_right unat_drop1)
  with False show ?thesis by (simp only: shift_right_plus if_False add_0_right)
qed

lemma word8_eqI:
  fixes x y :: "8 word"
  assumes "bit x 0 = bit y 0" "bit x 1 = bit y 1" "bit x 2 = bit y 2" "bit x 3 = bit y 3"
    "bit x 4 = bit y 4" "bit x 5 = bit y 5" "bit x 6 = bit y 6" "bit x 7 = bit y 7"
  shows "x = y"
proof (rule bit_word_eqI)
  fix n assume "n < LENGTH(8)"
  then have "n \<in> {0, 1, 2, 3, 4, 5, 6, 7}" by auto
  with assms show "bit x n = bit y n" by auto
qed

lemmas bit_shift = bit_shift_right bit_shift_left bit_and_iff

lemma run_append: "Ret \<notin> set xs \<Longrightarrow> run (xs @ ys) s = run ys (fold exec xs s)"
  by (induction xs arbitrary: s) auto

section \<open>The always-zero routine\<close>

lemma prune_list_Cons: "\<exists>t. prune_list (e # es) = e # t"
  by (cases es) (auto simp: Let_def)

lemma optimize_xor: "optimizeCode [Xor_a, Ret] = [Xor_a, Ret]"
  by code_simp

lemma zero_generate:
  assumes "decompose i = e # t" and "int divpow - int e > 8"
  shows "generateCode [] i divpow =
           Some \<lparr>code = [Xor_a, Ret], sizeResult = 2, speedResult = 4, registersUsed = Only_use_a\<rparr>"
proof -
  have "buildCode [] i divpow = Some ([Xor_a, Ret], 1)"
    using assms by (simp add: buildCode_def Let_def addLine_def)
  then show ?thesis
    by (simp add: generateCode_def optimize_xor measureCode_def)
qed

text \<open>
  C5: if the most significant exponent of the pruned decomposition is more than 8 below
  \<^verbatim>\<open>divpow\<close>, the routine is the clear-accumulator instruction followed by the return,
  it uses the accumulator only, and it leaves 0 in the accumulator from every state.
\<close>

theorem zero_routine:
  assumes "take (pruned_numpowers (decompose i)) (decompose i) = e # es"
    and "int divpow - int e > 8"
  shows "generateCode [] i divpow =
           Some \<lparr>code = [Xor_a, Ret], sizeResult = 2, speedResult = 4, registersUsed = Only_use_a\<rparr> \<and>
         regA (run [Xor_a, Ret] s) = 0"
proof -
  from assms(1) have pl: "prune_list (decompose i) = e # es"
    by (simp add: take_pruned_numpowers)
  then obtain t where arr: "decompose i = e # t"
    using prune_list_Cons [of "hd (decompose i)" "tl (decompose i)"]
    by (cases "decompose i") auto
  from zero_generate [OF arr assms(2)] show ?thesis by simp
qed

theorem zero_routine_witness:
  "take (pruned_numpowers (decompose 3)) (decompose 3) = [1, 0] \<and> int 12 - int 1 > 8 \<and>
   generateCode [] 3 12 =
     Some \<lparr>code = [Xor_a, Ret], sizeResult = 2, speedResult = 4, registersUsed = Only_use_a\<rparr> \<and>
   regA (run [Xor_a, Ret] \<lparr>regA = 200, regB = 0, carry = False\<rparr>) = 0"
proof -
  have d: "decompose 3 = [1, 0]" by code_simp
  have h: "take (pruned_numpowers (decompose 3)) (decompose 3) = [1, 0]"
    by (simp add: d pruned_numpowers_def)
  show ?thesis using zero_routine [OF h, of 12 "\<lparr>regA = 200, regB = 0, carry = False\<rparr>"] h by simp
qed

section \<open>Division by 4\<close>

lemma find4: "findApproximation 4 =
  Some [\<lparr>code = [Srl_a, Srl_a, Ret], sizeResult = 5, speedResult = 7, registersUsed = Only_use_a\<rparr>]"
  by code_simp

text \<open>
  C8, as stated, fails: the routine for the divisor 4 has two shift-right instructions, so
  its size and time are not those of one shift-right plus one return.
\<close>

theorem divisor_4_counterexample:
  "map_option (map sizeResult) (findApproximation 4) \<noteq> Some [lineSize Srl_a + lineSize Ret] \<and>
   map_option (map speedResult) (findApproximation 4) \<noteq> Some [lineSpeed Srl_a + lineSpeed Ret]"
  by (simp add: find4)

text \<open>
  C8, amended: for the divisor 4 the generator produces a routine of two shift-right
  instructions and the return, which uses the accumulator only; its size and time are
  those of two shift-rights plus one return, and it leaves \<open>j div 4\<close> in the accumulator
  for every 8-bit input \<open>j\<close>.
\<close>

theorem divisor_4:
  "findApproximation 4 =
     Some [\<lparr>code = [Srl_a, Srl_a, Ret],
            sizeResult = 2 * lineSize Srl_a + lineSize Ret,
            speedResult = 2 * lineSpeed Srl_a + lineSpeed Ret,
            registersUsed = Only_use_a\<rparr>] \<and>
   unat (regA (run [Srl_a, Srl_a, Ret] s)) = unat (regA s) div 4"
proof -
  have "unat (regA (run [Srl_a, Srl_a, Ret] s)) = unat (regA s) div 2 div 2"
    by (simp add: unat_shift_right)
  also have "\<dots> = unat (regA s) div 4" by arith
  finally show ?thesis by (simp only: find4 lineSize.simps lineSpeed.simps) simp
qed

section \<open>The optimizer as a function on lists\<close>

lemma count_srl_eq: "count_srl ls j = length (takeWhile (\<lambda>x. x = Srl_a) (drop j ls))"
proof (induction ls j rule: count_srl.induct)
  case (1 ls j)
  show ?case
  proof (cases "j < length ls")
    case True
    then have d: "drop j ls = ls ! j # drop (Suc j) ls" by (simp add: Cons_nth_drop_Suc)
    show ?thesis using True 1 by (subst count_srl.simps) (simp add: d)
  next
    case False
    then show ?thesis by (subst count_srl.simps) simp
  qed
qed

lemma opt_step_eq:
  assumes "i < length ls"
  shows "opt_step ls i =
    (case ls ! i of
       Rra \<Rightarrow> rra_switch (length (takeWhile (\<lambda>x. x = Srl_a) (drop (Suc i) ls)))
     | Srl_a \<Rightarrow> srl_switch (Suc (length (takeWhile (\<lambda>x. x = Srl_a) (drop (Suc i) ls))))
     | l \<Rightarrow> ([l], 0))"
proof -
  have d: "drop i ls = ls ! i # drop (Suc i) ls" using assms by (simp add: Cons_nth_drop_Suc)
  show ?thesis
    by (cases "ls ! i") (simp_all add: opt_step_def count_srl_eq d)
qed

lemma opt_loop_eq: "opt_loop ls i tmp = tmp @ peephole (drop i ls)"
proof (induction ls i tmp rule: opt_loop.induct)
  case (1 ls i tmp)
  show ?case
  proof (cases "i < length ls")
    case True
    then have d: "drop i ls = ls ! i # drop (Suc i) ls" by (simp add: Cons_nth_drop_Suc)
    obtain added m where st: "opt_step ls i = (added, m)" by (cases "opt_step ls i")
    have "opt_loop ls i tmp = opt_loop ls (i + m + 1) (tmp @ added)"
      using True st by (subst opt_loop.simps) (simp add: fold_addLineTemp)
    also have "\<dots> = (tmp @ added) @ peephole (drop (i + m + 1) ls)"
      using 1 [OF True st [symmetric]] by (simp only: fold_addLineTemp)
    also have "\<dots> = tmp @ peephole (drop i ls)"
    proof -
      have "peephole (ls ! i # drop (Suc i) ls) = added @ peephole (drop m (drop (Suc i) ls))"
        using st [unfolded opt_step_eq [OF True]]
        by (cases "ls ! i") (simp_all add: peephole.simps(2))
      then show ?thesis by (simp add: d add.commute)
    qed
    finally show ?thesis .
  next
    case False
    then show ?thesis
      by (subst opt_loop.simps) (simp add: peephole.simps)
  qed
qed

lemma optimizeCode_eq: "optimizeCode ls = peephole ls"
  by (simp add: optimizeCode_def fold_addLine opt_loop_eq)

section \<open>The rewrites preserve the registers\<close>

lemma same_regs_refl [simp]: "same_regs s s"
  by (simp add: same_regs_def)

lemma same_regs_trans: "same_regs s t \<Longrightarrow> same_regs t u \<Longrightarrow> same_regs s u"
  by (simp add: same_regs_def)

lemma same_regs_I: "regA s = regA t \<Longrightarrow> regB s = regB t \<Longrightarrow> same_regs s t"
  by (simp add: same_regs_def)

lemmas rule_simps = and_const_def bit_shift eval_nat_numeral

lemma rra4: "same_regs (fold exec [Rla, Rla, Rla, Rla, And_0f] s) (fold exec [Rra, Srl_a, Srl_a, Srl_a, Srl_a] s)"
  by (rule same_regs_I, rule word8_eqI) (simp_all add: rule_simps)

lemma rra5: "same_regs (fold exec [Rla, Rla, Rla, And_07] s) (fold exec [Rra, Srl_a, Srl_a, Srl_a, Srl_a, Srl_a] s)"
  by (rule same_regs_I, rule word8_eqI) (simp_all add: rule_simps)

lemma rra6: "same_regs (fold exec [Rla, Rla, And_03] s) (fold exec [Rra, Srl_a, Srl_a, Srl_a, Srl_a, Srl_a, Srl_a] s)"
  by (rule same_regs_I, rule word8_eqI) (simp_all add: rule_simps)

lemma rra7: "same_regs (fold exec [Rla, And_01] s) (fold exec [Rra, Srl_a, Srl_a, Srl_a, Srl_a, Srl_a, Srl_a, Srl_a] s)"
  by (rule same_regs_I, rule word8_eqI) (simp_all add: rule_simps)

lemma srl3: "same_regs (fold exec [And_f8, Rrca, Rrca, Rrca] s) (fold exec [Srl_a, Srl_a, Srl_a] s)"
  by (rule same_regs_I, rule word8_eqI) (simp_all add: rule_simps)

lemma srl4: "same_regs (fold exec [And_f0, Rrca, Rrca, Rrca, Rrca] s) (fold exec [Srl_a, Srl_a, Srl_a, Srl_a] s)"
  by (rule same_regs_I, rule word8_eqI) (simp_all add: rule_simps)

lemma srl5: "same_regs (fold exec [And_e0, Rlca, Rlca, Rlca] s) (fold exec [Srl_a, Srl_a, Srl_a, Srl_a, Srl_a] s)"
  by (rule same_regs_I, rule word8_eqI) (simp_all add: rule_simps)

lemma srl6: "same_regs (fold exec [And_c0, Rlca, Rlca] s) (fold exec [Srl_a, Srl_a, Srl_a, Srl_a, Srl_a, Srl_a] s)"
  by (rule same_regs_I, rule word8_eqI) (simp_all add: rule_simps)

lemma srl7: "same_regs (fold exec [And_80, Rlca] s) (fold exec [Srl_a, Srl_a, Srl_a, Srl_a, Srl_a, Srl_a, Srl_a] s)"
  by (rule same_regs_I, rule word8_eqI) (simp_all add: rule_simps)

lemma srl8: "same_regs (fold exec [Xor_a] s) (fold exec [Srl_a, Srl_a, Srl_a, Srl_a, Srl_a, Srl_a, Srl_a, Srl_a] s)"
  by (rule same_regs_I, rule word8_eqI) (simp_all add: rule_simps)

lemma rra_switch_sound:
  "n \<in> {4, 5, 6, 7} \<Longrightarrow>
   same_regs (fold exec (fst (rra_switch n)) s) (fold exec (Rra # replicate n Srl_a) s)"
  using rra4 [of s] rra5 [of s] rra6 [of s] rra7 [of s]
  by (auto simp: rra_switch_def eval_nat_numeral)

lemma srl_switch_sound:
  "n \<in> {2, 3, 4, 5, 6, 7} \<Longrightarrow>
   same_regs (fold exec (fst (srl_switch (Suc n))) s) (fold exec (Srl_a # replicate n Srl_a) s)"
  using srl3 [of s] srl4 [of s] srl5 [of s] srl6 [of s] srl7 [of s] srl8 [of s]
  by (auto simp: srl_switch_def eval_nat_numeral)

lemma switch_no_ret: "Ret \<notin> set (fst (rra_switch n))" "Ret \<notin> set (fst (srl_switch n))"
  by (simp_all add: rra_switch_def srl_switch_def)

lemma takeWhile_replicate_eq:
  "takeWhile (\<lambda>x. x = a) ls = replicate (length (takeWhile (\<lambda>x. x = a) ls)) a"
  by (induction ls) auto

lemma split_run:
  "ls = replicate (length (takeWhile (\<lambda>x. x = Srl_a) ls)) Srl_a @
        drop (length (takeWhile (\<lambda>x. x = Srl_a) ls)) ls"
proof -
  have "ls = takeWhile (\<lambda>x. x = Srl_a) ls @ dropWhile (\<lambda>x. x = Srl_a) ls" by simp
  then show ?thesis
    using takeWhile_replicate_eq [of Srl_a ls] by (simp add: dropWhile_eq_drop)
qed

lemma rest_no_srl:
  "drop (length (takeWhile (\<lambda>x. x = Srl_a) ls)) ls = [] \<or>
   hd (drop (length (takeWhile (\<lambda>x. x = Srl_a) ls)) ls) \<noteq> Srl_a"
  using hd_dropWhile [of "\<lambda>x. x = Srl_a" ls] by (auto simp: dropWhile_eq_drop)

lemma peephole_Cons:
  "peephole (l # ls) =
     (let n = length (takeWhile (\<lambda>x. x = Srl_a) ls)
      in if l = Rra \<and> n \<in> {4, 5, 6, 7}
         then fst (rra_switch n) @ peephole (drop n ls)
         else if l = Srl_a \<and> n \<in> {2, 3, 4, 5, 6, 7}
         then fst (srl_switch (Suc n)) @ peephole (drop n ls)
         else l # peephole ls)"
  by (cases l) (auto simp: peephole.simps(2) Let_def rra_switch_def srl_switch_def)

lemma shift_ok_tl: "shift_ok (l # ls) \<Longrightarrow> shift_ok ls"
  by (cases ls) simp_all

lemma shift_ok_after_run:
  "shift_ok (l # replicate n Srl_a @ rest) \<Longrightarrow> is_shift l \<Longrightarrow> rest = [] \<or> hd rest \<noteq> Srl_a \<Longrightarrow>
   shift_ok rest \<and> (rest = [] \<or> hd rest = Add_b \<or> hd rest = Ret)"
proof (induction n arbitrary: l)
  case 0
  then show ?case by (cases rest) (auto simp: after_shift_def)
next
  case (Suc n)
  from Suc.prems(1) have "shift_ok (Srl_a # replicate n Srl_a @ rest)" by simp
  from Suc.IH [OF this _ Suc.prems(3)] show ?case by (simp add: is_shift_def)
qed

lemma carry_insensitive:
  "same_regs s t \<Longrightarrow> rest = [] \<or> hd rest = Add_b \<or> hd rest = Ret \<Longrightarrow>
   same_regs (run rest s) (run rest t)"
proof (cases rest)
  case Nil
  assume "same_regs s t" then show ?thesis using Nil by simp
next
  case (Cons y r)
  assume st: "same_regs s t" and "rest = [] \<or> hd rest = Add_b \<or> hd rest = Ret"
  with Cons have "y = Add_b \<or> y = Ret" by simp
  moreover have "exec Add_b s = exec Add_b t" using st by (simp add: same_regs_def)
  ultimately show ?thesis using st Cons by auto
qed

lemma peephole_same_regs:
  "shift_ok p \<Longrightarrow> same_regs (run (peephole p) s) (run p s)"
proof (induction p arbitrary: s rule: length_induct)
  case (1 p)
  show ?case
  proof (cases p)
    case Nil
    then show ?thesis by (simp add: peephole.simps)
  next
    case (Cons l ls)
    define n where "n = length (takeWhile (\<lambda>x. x = Srl_a) ls)"
    define rest where "rest = drop n ls"
    have ls: "ls = replicate n Srl_a @ rest"
      unfolding n_def rest_def by (rule split_run)
    have rest: "rest = [] \<or> hd rest \<noteq> Srl_a"
      unfolding n_def rest_def by (rule rest_no_srl)
    have len: "length rest < length p" "length ls < length p"
      unfolding rest_def Cons by simp_all
    have rewrite: "same_regs (run (new @ peephole rest) s) (run p s)"
      if sh: "is_shift l" and nr: "Ret \<notin> set new"
        and eq: "same_regs (fold exec new s) (fold exec (l # replicate n Srl_a) s)" for new
    proof -
      have ok: "shift_ok rest \<and> (rest = [] \<or> hd rest = Add_b \<or> hd rest = Ret)"
        using 1(2) sh rest unfolding Cons by (subst (asm) ls) (rule shift_ok_after_run)
      have old: "Ret \<notin> set (l # replicate n Srl_a)" using sh by (auto simp: is_shift_def)
      have "same_regs (run (peephole rest) (fold exec new s)) (run rest (fold exec new s))"
        using 1(1) len ok by blast
      moreover have "same_regs (run rest (fold exec new s)) (run rest (fold exec (l # replicate n Srl_a) s))"
        using eq ok by (intro carry_insensitive) simp_all
      moreover have "run p s = run rest (fold exec (l # replicate n Srl_a) s)"
        unfolding Cons by (subst ls) (use run_append [OF old, of rest s] in simp)
      ultimately show ?thesis
        using run_append [OF nr, of "peephole rest" s] by (auto intro: same_regs_trans)
    qed
    consider (A) "l = Rra" "n \<in> {4, 5, 6, 7}"
      | (B) "l = Srl_a" "n \<in> {2, 3, 4, 5, 6, 7}"
      | (C) "peephole (l # ls) = l # peephole ls"
      using peephole_Cons [of l ls] unfolding Let_def n_def [symmetric]
      by (auto split: if_splits)
    then show ?thesis
    proof cases
      case A
      have "peephole p = fst (rra_switch n) @ peephole rest"
        using A unfolding Cons rest_def n_def by (subst peephole_Cons) (simp add: Let_def)
      moreover have "same_regs (run (fst (rra_switch n) @ peephole rest) s) (run p s)"
      proof (rule rewrite)
        show "is_shift l" using A by (simp add: is_shift_def)
        show "Ret \<notin> set (fst (rra_switch n))" by (rule switch_no_ret)
        show "same_regs (fold exec (fst (rra_switch n)) s) (fold exec (l # replicate n Srl_a) s)"
          unfolding A(1) using A(2) by (rule rra_switch_sound)
      qed
      ultimately show ?thesis by simp
    next
      case B
      have "peephole p = fst (srl_switch (Suc n)) @ peephole rest"
        using B unfolding Cons rest_def n_def by (subst peephole_Cons) (simp add: Let_def)
      moreover have "same_regs (run (fst (srl_switch (Suc n)) @ peephole rest) s) (run p s)"
      proof (rule rewrite)
        show "is_shift l" using B by (simp add: is_shift_def)
        show "Ret \<notin> set (fst (srl_switch (Suc n)))" by (rule switch_no_ret)
        show "same_regs (fold exec (fst (srl_switch (Suc n))) s)
                (fold exec (l # replicate n Srl_a) s)"
          unfolding B(1) using B(2) by (rule srl_switch_sound)
      qed
      ultimately show ?thesis by simp
    next
      case C
      have "same_regs (run (peephole ls) (exec l s)) (run ls (exec l s))"
        using 1(1) len 1(2) shift_ok_tl unfolding Cons by blast
      then show ?thesis unfolding Cons C by simp
    qed
  qed
qed

section \<open>The shape of the built sequence\<close>

lemma term_body_eq:
  "term_body arr np j ls = ls @ segment (first_shift np j) (int (arr ! (j - 1)) - int (arr ! j))"
  by (simp add: term_body_def segment_def first_shift_def Let_def addLine_def srl_while_eq)

lemma term_loop_append: "term_loop arr np j ls = ls @ term_loop arr np j []"
proof (induction j arbitrary: ls)
  case 0
  then show ?case by simp
next
  case (Suc j)
  show ?case
    using Suc [of "term_body arr np (Suc j) ls"] Suc [of "term_body arr np (Suc j) []"]
    by (simp add: term_body_eq)
qed

lemma term_loop_Suc:
  "term_loop arr np (Suc j) [] =
     segment (first_shift np (Suc j)) (int (arr ! j) - int (arr ! Suc j)) @ term_loop arr np j []"
  using term_loop_append [of arr np j "term_body arr np (Suc j) []"]
  by (simp add: term_body_eq)

lemma buildCode_eq:
  "buildCode [] i divpow =
     (let arr = decompose i; np = pruned_numpowers arr
      in if arr = [] then None
         else if int divpow - int (arr ! 0) > 8 then Some ([Xor_a, Ret], 1)
         else Some ((if np > 1 then [Ld_ba] else []) @ term_loop arr np (np - 1) [] @
                    final_shifts arr np divpow @ [Ret], np))"
  unfolding buildCode_def Let_def final_shifts_def
  by (subst term_loop_append) (simp add: addLine_def srl_while_eq)

lemma shift_ok_Cons:
  "shift_ok (x # zs) = (zs = [] \<or> ((is_shift x \<longrightarrow> after_shift (hd zs)) \<and> shift_ok zs))"
  by (cases zs) auto

lemma shift_ok_append:
  "shift_ok xs \<Longrightarrow> shift_ok ys \<Longrightarrow> xs = [] \<or> \<not> is_shift (last xs) \<Longrightarrow> shift_ok (xs @ ys)"
proof (induction xs)
  case Nil
  then show ?case by simp
next
  case (Cons x xs)
  show ?case
  proof (cases xs)
    case Nil
    with Cons.prems show ?thesis by (simp add: shift_ok_Cons)
  next
    case inner: (Cons y zs)
    with Cons.IH Cons.prems show ?thesis by simp
  qed
qed

lemma hd_srls: "hd (replicate k Srl_a @ [y]) = (if k = 0 then y else Srl_a)"
  by (cases k) simp_all

lemma shift_ok_srls: "after_shift y \<Longrightarrow> shift_ok (replicate k Srl_a @ [y])"
  by (induction k) (simp_all add: shift_ok_Cons hd_srls after_shift_def)

lemma shift_ok_shift_srls: "after_shift y \<Longrightarrow> shift_ok (x # replicate k Srl_a @ [y])"
  by (simp add: shift_ok_Cons hd_srls shift_ok_srls) (simp add: after_shift_def)

lemma segment_ok: "shift_ok (segment x d)" "\<not> is_shift (last (segment x d))"
  by (simp_all add: segment_def shift_ok_shift_srls after_shift_def is_shift_def)

lemma term_loop_ok:
  "shift_ok (term_loop arr np j []) \<and>
   (term_loop arr np j [] = [] \<or> \<not> is_shift (last (term_loop arr np j [])))"
proof (induction j)
  case 0
  then show ?case by simp
next
  case (Suc j)
  have ne: "segment x d \<noteq> []" for x d by (simp add: segment_def)
  show ?case
    unfolding term_loop_Suc using Suc segment_ok ne
    by (auto intro!: shift_ok_append simp: last_append)
qed

lemma final_ok: "shift_ok (final_shifts arr np divpow @ [Ret])"
  by (simp add: final_shifts_def shift_ok_shift_srls shift_ok_srls after_shift_def)

lemma buildCode_cases:
  assumes "buildCode [] i divpow = Some (built, np)"
  shows "decompose i \<noteq> [] \<and>
         (if int divpow - int (decompose i ! 0) > 8 then built = [Xor_a, Ret] \<and> np = 1
          else np = pruned_numpowers (decompose i) \<and>
               built = (if np > 1 then [Ld_ba] else []) @ term_loop (decompose i) np (np - 1) [] @
                       final_shifts (decompose i) np divpow @ [Ret])"
  using assms unfolding buildCode_eq Let_def
  by (cases "decompose i = []"; cases "8 < int divpow - int (decompose i ! 0)") auto

lemma buildCode_shift_ok:
  assumes "buildCode [] i divpow = Some (built, np)"
  shows "shift_ok built"
proof (cases "int divpow - int (decompose i ! 0) > 8")
  case True
  with buildCode_cases [OF assms] show ?thesis by (simp add: is_shift_def)
next
  case False
  define arr where "arr = decompose i"
  have b: "built = (if np > 1 then [Ld_ba] else []) @ term_loop arr np (np - 1) [] @
                       final_shifts arr np divpow @ [Ret]"
    using buildCode_cases [OF assms] False unfolding arr_def by simp
  have "shift_ok (term_loop arr np (np - 1) [] @ final_shifts arr np divpow @ [Ret])"
    using term_loop_ok [of arr np "np - 1"] final_ok [of arr np divpow]
    by (auto intro: shift_ok_append [where ys = "final_shifts arr np divpow @ [Ret]"])
  then show ?thesis unfolding b by (auto simp: shift_ok_Cons is_shift_def)
qed

text \<open>
  C2: for every sequence that the builder produces, the sequence after \<^verbatim>\<open>optimizeCode\<close>
  leaves the same value in the accumulator as the sequence before it, from every state of
  the machine (all 256 accumulator values, both carry states, any value of the other
  register). In particular a rotate-right-through-carry followed by five shift-rights is
  replaced by three rotate-lefts and the mask 0x07, with the same result.
\<close>

theorem optimizeCode_preserves:
  assumes "buildCode [] i divpow = Some (built, numpowers)"
  shows "regA (run (optimizeCode built) s) = regA (run built s) \<and>
         optimizeCode [Rra, Srl_a, Srl_a, Srl_a, Srl_a, Srl_a, Ret] = [Rla, Rla, Rla, And_07, Ret] \<and>
         regA (run [Rla, Rla, Rla, And_07, Ret] s) =
           regA (run [Rra, Srl_a, Srl_a, Srl_a, Srl_a, Srl_a, Ret] s)"
proof -
  have "same_regs (run (peephole built) s) (run built s)"
    using buildCode_shift_ok [OF assms] by (rule peephole_same_regs)
  then have 1: "regA (run (optimizeCode built) s) = regA (run built s)"
    by (simp add: optimizeCode_eq same_regs_def)
  have 2: "optimizeCode [Rra, Srl_a, Srl_a, Srl_a, Srl_a, Srl_a, Ret] = [Rla, Rla, Rla, And_07, Ret]"
    by code_simp
  have "run ([Rla, Rla, Rla, And_07] @ [Ret]) s = run [Ret] (fold exec [Rla, Rla, Rla, And_07] s)"
    by (rule run_append) simp
  moreover have "run ([Rra, Srl_a, Srl_a, Srl_a, Srl_a, Srl_a] @ [Ret]) s =
      run [Ret] (fold exec [Rra, Srl_a, Srl_a, Srl_a, Srl_a, Srl_a] s)"
    by (rule run_append) simp
  ultimately have 3: "regA (run [Rla, Rla, Rla, And_07, Ret] s) =
           regA (run [Rra, Srl_a, Srl_a, Srl_a, Srl_a, Srl_a, Ret] s)"
    using rra5 [of s] by (simp add: same_regs_def)
  from 1 2 3 show ?thesis by blast
qed

lemma build_205_11:
  "buildCode [] 205 11 =
     Some ([Ld_ba, Srl_a, Srl_a, Add_b, Rra, Add_b, Rra, Srl_a, Srl_a, Add_b, Rra, Add_b,
            Rra, Srl_a, Srl_a, Srl_a, Ret], 5)"
  by code_simp

theorem optimizeCode_preserves_witness:
  "buildCode [] 205 11 =
     Some ([Ld_ba, Srl_a, Srl_a, Add_b, Rra, Add_b, Rra, Srl_a, Srl_a, Add_b, Rra, Add_b,
            Rra, Srl_a, Srl_a, Srl_a, Ret], 5) \<and>
   regA (run (optimizeCode [Ld_ba, Srl_a, Srl_a, Add_b, Rra, Add_b, Rra, Srl_a, Srl_a, Add_b, Rra,
            Add_b, Rra, Srl_a, Srl_a, Srl_a, Ret]) \<lparr>regA = 100, regB = 0, carry = True\<rparr>) =
   regA (run [Ld_ba, Srl_a, Srl_a, Add_b, Rra, Add_b, Rra, Srl_a, Srl_a, Add_b, Rra,
            Add_b, Rra, Srl_a, Srl_a, Srl_a, Ret] \<lparr>regA = 100, regB = 0, carry = True\<rparr>)"
  using optimizeCode_preserves [OF build_205_11, of "\<lparr>regA = 100, regB = 0, carry = True\<rparr>"]
    build_205_11 by simp

section \<open>What the built sequence computes\<close>

lemma uint_shift_right:
  "uint (shift_right b a) = (uint a + (if b then 256 else 0)) div 2"
proof -
  have "int (unat (shift_right b a)) = int ((unat a + (if b then 256 else 0)) div 2)"
    by (simp only: unat_shift_right)
  then show ?thesis by (cases b) (simp_all add: zdiv_int)
qed

lemma uint_lt_256: "uint (a :: 8 word) < 256"
  using uint_bounded [of a] by simp

lemma val9_add: "val9 (exec Add_b s) = uint (regA s) + uint (regB s)"
proof -
  define u where "u = uint (regA s) + uint (regB s)"
  have a: "uint (regA s + regB s) = u mod 256"
    unfolding u_def by (simp add: uint_word_ariths)
  have h: "int (unat (regA s) + unat (regB s)) = u"
    unfolding u_def by (simp only: uint_nat of_nat_add)
  have "(256 \<le> u) = (int 256 \<le> int (unat (regA s) + unat (regB s)))"
    by (simp only: h of_nat_numeral)
  also have "\<dots> = (256 \<le> unat (regA s) + unat (regB s))"
    by (rule of_nat_le_iff)
  finally have c: "(256 \<le> unat (regA s) + unat (regB s)) = (256 \<le> u)" by simp
  have bounds: "0 \<le> u" "u < 512"
    unfolding u_def using uint_lt_256 [of "regA s"] uint_lt_256 [of "regB s"] by simp_all
  have "u mod 256 + (if 256 \<le> u then 256 else 0) = u"
  proof (cases "256 \<le> u")
    case True
    have "u mod 256 = (u - 256) mod 256" by simp
    also have "\<dots> = u - 256" using True bounds by (intro mod_pos_pos_trivial) simp_all
    finally show ?thesis using True by simp
  next
    case False
    then have "u mod 256 = u" using bounds by (intro mod_pos_pos_trivial) simp_all
    then show ?thesis using False by simp
  qed
  then show ?thesis
    unfolding u_def [symmetric] using a c by (simp add: val9_def)
qed

lemma regB_add [simp]: "regB (exec Add_b s) = regB s"
  by simp

lemma srl_run:
  "regB (fold exec (replicate k Srl_a) s) = regB s \<and>
   uint (regA (fold exec (replicate k Srl_a) s)) = uint (regA s) div 2 ^ k"
proof (induction k arbitrary: s)
  case 0
  then show ?case by simp
next
  case (Suc k)
  have "uint (regA (exec Srl_a s)) div 2 ^ k = uint (regA s) div 2 ^ Suc k"
    by (simp add: uint_shift_right zdiv_zmult2_eq)
  with Suc [of "exec Srl_a s"] show ?case by simp
qed

lemma shift_first:
  assumes "sh = Rra \<or> sh = Srl_a"
  shows "regB (exec sh s) = regB s \<and>
         uint (regA (exec sh s)) = (if sh = Rra then val9 s else uint (regA s)) div 2"
  using assms by (auto simp: uint_shift_right val9_def)

lemma shift_run:
  assumes "sh = Rra \<or> sh = Srl_a"
  shows "regB (fold exec (sh # replicate k Srl_a) s) = regB s \<and>
         uint (regA (fold exec (sh # replicate k Srl_a) s)) =
           (if sh = Rra then val9 s else uint (regA s)) div 2 ^ Suc k"
proof -
  have "uint (regA (exec sh s)) div 2 ^ k =
        (if sh = Rra then val9 s else uint (regA s)) div 2 ^ Suc k"
    using shift_first [OF assms, of s] by (simp add: zdiv_zmult2_eq)
  then show ?thesis
    using srl_run [of k "exec sh s"] shift_first [OF assms, of s] by simp
qed

lemma segment_sem:
  assumes sh: "sh = Rra \<or> sh = Srl_a" and d: "0 < d"
  shows "regB (fold exec (segment sh d) s) = regB s \<and>
         val9 (fold exec (segment sh d) s) =
           (if sh = Rra then val9 s else uint (regA s)) div 2 ^ nat d + uint (regB s)"
proof -
  from d have k: "Suc (nat (d - 1)) = nat d" by simp
  have f: "fold exec (segment sh d) s = exec Add_b (fold exec (sh # replicate (nat (d - 1)) Srl_a) s)"
    by (simp add: segment_def)
  show ?thesis
    unfolding f using shift_run [OF sh, of "nat (d - 1)" s]
    by (simp only: val9_add regB_add k)
qed

lemma div_pow_step:
  fixes x P :: int
  assumes "lo < hi"
  shows "(x * P) div 2 ^ lo div 2 ^ (hi - lo) + x = (x * (P + 2 ^ hi)) div 2 ^ hi"
proof -
  have p: "(2::int) ^ hi = 2 ^ lo * 2 ^ (hi - lo)"
    using assms by (simp flip: power_add)
  have "(x * P) div 2 ^ lo div 2 ^ (hi - lo) = (x * P) div 2 ^ hi"
    unfolding p by (simp add: zdiv_zmult2_eq)
  moreover have "(x * (P + 2 ^ hi)) div 2 ^ hi = (x * P) div 2 ^ hi + x"
    by (simp add: distrib_left)
  ultimately show ?thesis by simp
qed

lemma segment_step:
  assumes sh: "sh = Rra \<or> sh = Srl_a" and lt: "lo < hi"
    and v: "(if sh = Rra then val9 s else uint (regA s)) = (uint (regB s) * P) div 2 ^ lo"
  shows "regB (fold exec (segment sh (int hi - int lo)) s) = regB s \<and>
         val9 (fold exec (segment sh (int hi - int lo)) s) =
           (uint (regB s) * (P + 2 ^ hi)) div 2 ^ hi"
proof -
  have d: "0 < int hi - int lo" and n: "nat (int hi - int lo) = hi - lo" using lt by simp_all
  show ?thesis
    using segment_sem [OF sh d, of s] div_pow_step [OF lt, of "uint (regB s)" P]
    by (simp only: n v)
qed

lemma pow_sum_append: "pow_sum (xs @ ys) = pow_sum xs + pow_sum ys"
  by (simp add: pow_sum_def)

lemma pow_sum_take_Suc:
  "j < length arr \<Longrightarrow> pow_sum (take (Suc j) arr) = pow_sum (take j arr) + 2 ^ (arr ! j)"
  by (simp add: take_Suc_conv_app_nth pow_sum_append)

lemma sorted_nth_less:
  "sorted_wrt (>) (arr :: nat list) \<Longrightarrow> Suc j < length arr \<Longrightarrow> arr ! Suc j < arr ! j"
  by (simp add: sorted_wrt_iff_nth_less)

lemma term_loop_sem:
  assumes "sorted_wrt (>) arr"
  shows "j < length arr \<Longrightarrow> j < np - 1 \<Longrightarrow>
         val9 s = (uint (regB s) * P) div 2 ^ (arr ! j) \<Longrightarrow>
         regB (fold exec (term_loop arr np j []) s) = regB s \<and>
         val9 (fold exec (term_loop arr np j []) s) =
           (uint (regB s) * (P + pow_sum (take j arr))) div 2 ^ (arr ! 0)"
proof (induction j arbitrary: s P)
  case 0
  then show ?case by simp
next
  case (Suc j)
  define s1 where "s1 = fold exec (segment Rra (int (arr ! j) - int (arr ! Suc j))) s"
  have fs: "first_shift np (Suc j) = Rra" using Suc.prems(2) by (simp add: first_shift_def)
  have lt: "arr ! Suc j < arr ! j" using assms Suc.prems(1) by (rule sorted_nth_less)
  have s1: "regB s1 = regB s \<and> val9 s1 = (uint (regB s) * (P + 2 ^ (arr ! j))) div 2 ^ (arr ! j)"
    unfolding s1_def using Suc.prems(3) by (intro segment_step lt) simp_all
  have "regB (fold exec (term_loop arr np j []) s1) = regB s1 \<and>
        val9 (fold exec (term_loop arr np j []) s1) =
          (uint (regB s1) * ((P + 2 ^ (arr ! j)) + pow_sum (take j arr))) div 2 ^ (arr ! 0)"
    using Suc.prems s1 by (intro Suc.IH) simp_all
  moreover have "fold exec (term_loop arr np (Suc j) []) s = fold exec (term_loop arr np j []) s1"
    unfolding term_loop_Suc fs s1_def by simp
  moreover have "P + pow_sum (take (Suc j) arr) = (P + 2 ^ (arr ! j)) + pow_sum (take j arr)"
    using Suc.prems(1) by (simp add: pow_sum_take_Suc)
  ultimately show ?case using s1 by (simp only: add.assoc)
qed

section \<open>Pruning loses nothing on 8-bit inputs\<close>

lemma pow_sum_nonneg: "0 \<le> pow_sum es"
  by (induction es) simp_all

lemma pow_sum_lt: "sorted_wrt (>) (e # es) \<Longrightarrow> pow_sum (e # es) < 2 ^ Suc e"
proof (induction es arbitrary: e)
  case Nil
  then show ?case by simp
next
  case (Cons f es)
  then have "f < e" and "sorted_wrt (>) (f # es)" by simp_all
  then have "pow_sum (f # es) < 2 ^ Suc f" and "Suc f \<le> e" using Cons.IH by simp_all
  moreover have "(2::int) ^ Suc f \<le> 2 ^ e" using \<open>Suc f \<le> e\<close> by (intro power_increasing) simp_all
  ultimately show ?case by simp
qed

lemma prune_list_sorted: "sorted_wrt (>) es \<Longrightarrow> sorted_wrt (>) (prune_list es)"
  using prune_list_prefix [of es] sorted_wrt_take [of "(>)" es "length (prune_list es)"]
  by simp

lemma prune_list_single: "length (prune_list (f # rest)) = 1 \<Longrightarrow> prune_list (f # rest) = [f]"
  using prune_list_Cons [of f rest] by (cases "prune_list (f # rest)") auto

lemma prune_negligible:
  "sorted_wrt (>) es \<Longrightarrow> es \<noteq> [] \<Longrightarrow>
   255 * (pow_sum es - pow_sum (prune_list es)) < 2 ^ last (prune_list es) \<and>
   pow_sum (prune_list es) \<le> pow_sum es"
proof (induction es rule: prune_list.induct)
  case (1 e f rest)
  define r where "r = prune_list (f # rest)"
  have sorted: "sorted_wrt (>) (f # rest)" and fe: "f < e" using 1(2) by simp_all
  have IH: "255 * (pow_sum (f # rest) - pow_sum r) < 2 ^ last r" "pow_sum r \<le> pow_sum (f # rest)"
    using 1(1) sorted unfolding r_def by simp_all
  have rne: "r \<noteq> []" unfolding r_def by (rule prune_list_nonempty) simp
  have lt: "pow_sum (f # rest) < 2 ^ Suc f" using sorted by (rule pow_sum_lt)
  have nn: "0 \<le> pow_sum (f # rest)" by (rule pow_sum_nonneg)
  consider (last) "length r = 1" "int e - int f > 7"
    | (mid) "int e - int f > 8"
    | (keep) "\<not> ((length r = 1 \<and> int e - int f > 7) \<or> int e - int f > 8)"
    by blast
  then show ?case
  proof cases
    case last
    then have pl: "prune_list (e # f # rest) = [e]" by (simp add: r_def Let_def)
    have "r = [f]" using last(1) unfolding r_def by (rule prune_list_single)
    with IH(1) have "255 * (pow_sum (f # rest) - 2 ^ f) < 2 ^ f" by simp
    then have "255 * pow_sum (f # rest) < 256 * 2 ^ f" by simp
    also have "(256::int) * 2 ^ f = 2 ^ (f + 8)" by (simp add: power_add)
    also have "\<dots> \<le> 2 ^ e" using last(2) by (intro power_increasing) simp_all
    finally show ?thesis using nn unfolding pl by simp
  next
    case mid
    then have pl: "prune_list (e # f # rest) = [e]" by (simp add: r_def Let_def)
    have "255 * pow_sum (f # rest) < 256 * 2 ^ Suc f" using lt nn by linarith
    also have "(256::int) * 2 ^ Suc f = 2 ^ (f + 9)" by (simp add: power_add)
    also have "\<dots> \<le> 2 ^ e" using mid by (intro power_increasing) simp_all
    finally show ?thesis using nn unfolding pl by simp
  next
    case keep
    then have pl: "prune_list (e # f # rest) = e # r" unfolding r_def by (auto simp: Let_def)
    show ?thesis unfolding pl using IH rne by simp
  qed
qed simp_all

lemma pow_sum_dvd: "(\<And>a. a \<in> set es \<Longrightarrow> e \<le> a) \<Longrightarrow> (2::int) ^ e dvd pow_sum es"
  by (induction es) (auto intro: dvd_add le_imp_power_dvd)

lemma sorted_last_le:
  "sorted_wrt (>) (es :: nat list) \<Longrightarrow> a \<in> set es \<Longrightarrow> last es \<le> a"
  by (induction es) (auto simp: less_imp_le)

lemma div_absorb:
  fixes x M R :: int
  assumes x: "0 \<le> x" "x \<le> 255" and R: "0 \<le> R" "255 * R < 2 ^ e"
    and dvd: "2 ^ e dvd M" and e: "e \<le> D" and M: "0 \<le> M"
  shows "(x * (M + R)) div 2 ^ D = (x * M) div 2 ^ D"
proof -
  define r where "r = (x * M) mod 2 ^ D"
  define q where "q = (x * M) div 2 ^ D"
  have xm: "x * M = 2 ^ D * q + r" unfolding q_def r_def by simp
  have r0: "0 \<le> r" "r < 2 ^ D" unfolding r_def by simp_all
  have pd: "(2::int) ^ D = 2 ^ e * 2 ^ (D - e)" using e by (simp flip: power_add)
  have "(2::int) ^ e dvd x * M" using dvd by simp
  moreover have "(2::int) ^ e dvd 2 ^ D" using e by (rule le_imp_power_dvd)
  ultimately have "(2::int) ^ e dvd r" unfolding r_def by (simp add: dvd_mod)
  then obtain t where t: "r = 2 ^ e * t" by (auto simp: dvd_def)
  have "2 ^ e * t < 2 ^ e * 2 ^ (D - e)" using r0(2) unfolding t pd .
  then have "t < 2 ^ (D - e)" by simp
  then have "t + 1 \<le> 2 ^ (D - e)" by simp
  then have "2 ^ e * (t + 1) \<le> (2::int) ^ e * 2 ^ (D - e)" by (intro mult_left_mono) simp_all
  then have rle: "r + 2 ^ e \<le> 2 ^ D" unfolding t pd by (simp add: distrib_left)
  have "x * R \<le> 255 * R" using x R by (intro mult_right_mono) simp_all
  then have xr: "x * R < 2 ^ e" using R(2) by simp
  have xr0: "0 \<le> x * R" using x R by simp
  have "x * (M + R) = 2 ^ D * q + (r + x * R)" using xm by (simp add: distrib_left)
  moreover have "(r + x * R) div 2 ^ D = 0"
    using r0 xr xr0 rle by (intro div_pos_pos_trivial) simp_all
  ultimately have "(x * (M + R)) div 2 ^ D = q" by simp
  then show ?thesis unfolding q_def .
qed

section \<open>The builder is exact\<close>

lemma segment_no_ret: "Ret \<notin> set (segment sh d) \<longleftrightarrow> sh \<noteq> Ret"
  by (auto simp: segment_def)

lemma term_loop_no_ret: "Ret \<notin> set (term_loop arr np j [])"
proof (induction j)
  case 0
  show ?case by simp
next
  case (Suc j)
  then show ?case
    unfolding term_loop_Suc by (simp add: segment_no_ret first_shift_def)
qed

lemma final_no_ret: "Ret \<notin> set (final_shifts arr np divpow)"
  by (simp add: final_shifts_def)

lemma run_ret: "Ret \<notin> set xs \<Longrightarrow> run (xs @ [Ret]) s = fold exec xs s"
  by (simp add: run_append)

lemma pow_div_shift:
  fixes x :: int
  assumes "a \<le> D"
  shows "(x * 2 ^ a) div 2 ^ D = x div 2 ^ (D - a)"
proof -
  have "(2::int) ^ D = 2 ^ (D - a) * 2 ^ a" using assms by (simp flip: power_add)
  then show ?thesis by simp
qed

lemma div_div_pow:
  fixes v :: int
  assumes "a \<le> D"
  shows "v div 2 ^ a div 2 ^ (D - a) = v div 2 ^ D"
proof -
  have "(2::int) ^ D = 2 ^ a * 2 ^ (D - a)" using assms by (simp flip: power_add)
  then show ?thesis by (simp add: zdiv_zmult2_eq)
qed

lemma final_single:
  assumes "arr ! 0 \<le> D"
  shows "final_shifts arr 1 D = replicate (D - arr ! 0) Srl_a"
proof (cases "D = arr ! 0")
  case True
  then show ?thesis by (simp add: final_shifts_def)
next
  case False
  with assms have "nat (int D - int (arr ! 0) - 1) = D - arr ! 0 - 1" "D - arr ! 0 = Suc (D - arr ! 0 - 1)"
    by simp_all
  with False show ?thesis by (simp add: final_shifts_def)
qed

lemma final_many:
  assumes "arr ! 0 < D" "1 < np"
  shows "final_shifts arr np D = Rra # replicate (D - arr ! 0 - 1) Srl_a"
proof -
  have "nat (int D - int (arr ! 0) - 1) = D - arr ! 0 - 1" using assms(1) by simp
  then show ?thesis using assms(2) by (simp add: final_shifts_def)
qed

lemma single_term_sem:
  assumes "arr ! 0 \<le> D"
  shows "uint (regA (run (final_shifts arr 1 D @ [Ret]) s)) = (uint (regA s) * 2 ^ (arr ! 0)) div 2 ^ D"
proof -
  have "final_shifts arr 1 D = replicate (D - arr ! 0) Srl_a"
    using assms by (rule final_single)
  then have "run (final_shifts arr 1 D @ [Ret]) s = fold exec (replicate (D - arr ! 0) Srl_a) s"
    by (simp add: run_ret)
  then show ?thesis
    using srl_run [of "D - arr ! 0" s] pow_div_shift [OF assms, of "uint (regA s)"] by simp
qed

lemma many_terms_sem:
  assumes sorted: "sorted_wrt (>) arr" and np: "1 < np" "np \<le> length arr" and D: "arr ! 0 < D"
  shows "uint (regA (run ([Ld_ba] @ term_loop arr np (np - 1) [] @ final_shifts arr np D @ [Ret]) s)) =
         (uint (regA s) * pow_sum (take np arr)) div 2 ^ D"
proof -
  define j where "j = np - 2"
  have npj: "np - 1 = Suc j" "np = Suc (Suc j)" using np(1) by (simp_all add: j_def)
  have len: "Suc j < length arr" "j < length arr" using np(2) npj by simp_all
  define x where "x = uint (regA s)"
  define s0 where "s0 = exec Ld_ba s"
  define s1 where "s1 = fold exec (segment Srl_a (int (arr ! j) - int (arr ! Suc j))) s0"
  define s2 where "s2 = fold exec (term_loop arr np j []) s1"
  define s3 where "s3 = fold exec (final_shifts arr np D) s2"
  have s0: "regB s0 = regA s" "regA s0 = regA s" by (simp_all add: s0_def)
  have lt: "arr ! Suc j < arr ! j" using sorted len(1) by (rule sorted_nth_less)
  have "uint (regA s0) = (uint (regB s0) * 2 ^ (arr ! Suc j)) div 2 ^ (arr ! Suc j)"
    by (simp add: s0)
  then have s1: "regB s1 = regB s0 \<and>
      val9 s1 = (uint (regB s0) * (2 ^ (arr ! Suc j) + 2 ^ (arr ! j))) div 2 ^ (arr ! j)"
    unfolding s1_def by (intro segment_step lt) simp_all
  have "regB s2 = regB s1 \<and>
      val9 s2 = (uint (regB s1) * ((2 ^ (arr ! Suc j) + 2 ^ (arr ! j)) + pow_sum (take j arr))) div 2 ^ (arr ! 0)"
    unfolding s2_def using sorted len(2) s1 npj by (intro term_loop_sem) simp_all
  moreover have "pow_sum (take np arr) = (2 ^ (arr ! Suc j) + 2 ^ (arr ! j)) + pow_sum (take j arr)"
    unfolding npj(2) using len by (simp add: pow_sum_take_Suc)
  ultimately have s2: "val9 s2 = (x * pow_sum (take np arr)) div 2 ^ (arr ! 0)"
    using s1 s0 by (simp add: x_def)
  have k: "nat (int D - int (arr ! 0) - 1) = D - arr ! 0 - 1" "Suc (D - arr ! 0 - 1) = D - arr ! 0"
    using D by simp_all
  have fin: "final_shifts arr np D = Rra # replicate (D - arr ! 0 - 1) Srl_a"
    using np(1) by (simp add: final_shifts_def k)
  have "uint (regA s3) = val9 s2 div 2 ^ (D - arr ! 0)"
    unfolding s3_def fin using shift_run [of Rra "D - arr ! 0 - 1" s2] by (simp only: k) simp
  also have "\<dots> = (x * pow_sum (take np arr)) div 2 ^ D"
    unfolding s2 using D by (intro div_div_pow) simp
  finally have s3: "uint (regA s3) = (x * pow_sum (take np arr)) div 2 ^ D" .
  have fs: "first_shift np (Suc j) = Srl_a" by (simp add: first_shift_def npj)
  have "Ret \<notin> set ([Ld_ba] @ term_loop arr np (np - 1) [] @ final_shifts arr np D)"
    using term_loop_no_ret [of arr np "np - 1"] final_no_ret [of arr np D] by simp
  then have "run (([Ld_ba] @ term_loop arr np (np - 1) [] @ final_shifts arr np D) @ [Ret]) s =
        fold exec ([Ld_ba] @ term_loop arr np (np - 1) [] @ final_shifts arr np D) s"
    by (rule run_ret)
  also have "\<dots> = s3"
    unfolding npj(1) term_loop_Suc fs s3_def s2_def s1_def s0_def by simp
  finally show ?thesis using s3 by (simp add: x_def)
qed

lemma valid_decompose:
  assumes "1 \<le> i" "i \<le> 2 ^ divpow" "divpow \<le> MAXPOWER2"
  shows "sorted_wrt (>) (decompose i) \<and> pow_sum (decompose i) = i \<and> decompose i \<noteq> [] \<and>
         decompose i ! 0 \<le> divpow \<and> (1 < length (decompose i) \<longrightarrow> decompose i ! 0 < divpow)"
proof -
  have "(2::int) ^ divpow \<le> 2 ^ 24"
    using assms(3) by (intro power_increasing) (simp_all add: MAXPOWER2_def)
  then have "i < 2 ^ 25" using assms(2) by simp
  then have f: "sorted_wrt (>) (decompose i)" "pow_sum (decompose i) = i"
    using decompose_facts [of i] assms(1) by simp_all
  have ne: "decompose i \<noteq> []" using f(2) assms(1) by auto
  then obtain e rest where arr: "decompose i = e # rest" by (cases "decompose i") auto
  have "2 ^ e \<le> i" using f(2) pow_sum_nonneg [of rest] unfolding arr by simp
  then have "(2::int) ^ e \<le> 2 ^ divpow" using assms(2) by (rule order_trans)
  then have le: "e \<le> divpow" by simp
  have "e < divpow" if "rest \<noteq> []"
  proof -
    from that obtain f r where "rest = f # r" by (cases rest) auto
    then have "0 < pow_sum rest" using pow_sum_nonneg [of r] by (simp add: add_pos_nonneg)
    then have "2 ^ e < i" using f(2) unfolding arr by simp
    then have "(2::int) ^ e < 2 ^ divpow" using assms(2) by (rule less_le_trans)
    then show ?thesis by simp
  qed
  then show ?thesis using f ne le unfolding arr by auto
qed

lemma pruned_exact:
  assumes sorted: "sorted_wrt (>) arr" and ne: "arr \<noteq> []" and D: "arr ! 0 \<le> D"
    and x: "0 \<le> x" "x \<le> 255"
  shows "(x * pow_sum (prune_list arr)) div 2 ^ D = (x * pow_sum arr) div 2 ^ D"
proof -
  define es where "es = prune_list arr"
  define R where "R = pow_sum arr - pow_sum es"
  have esne: "es \<noteq> []" unfolding es_def using ne by (rule prune_list_nonempty)
  have ess: "sorted_wrt (>) es" unfolding es_def using sorted by (rule prune_list_sorted)
  have neg: "255 * R < 2 ^ last es" "0 \<le> R"
    unfolding R_def es_def using prune_negligible [OF sorted ne] by simp_all
  have dvd: "(2::int) ^ last es dvd pow_sum es"
    using ess by (intro pow_sum_dvd sorted_last_le)
  obtain e rest where arr: "arr = e # rest" using ne by (cases arr) auto
  have "hd es = e" unfolding es_def arr using prune_list_Cons [of e rest] by auto
  then have "e \<in> set es" using esne by (cases es) auto
  then have "last es \<le> e" using ess by (intro sorted_last_le)
  then have le: "last es \<le> D" using D unfolding arr by simp
  have "(x * (pow_sum es + R)) div 2 ^ D = (x * pow_sum es) div 2 ^ D"
    using x neg dvd le pow_sum_nonneg [of es] by (intro div_absorb [where e = "last es"])
  then show ?thesis unfolding R_def es_def by simp
qed

lemma zero_exact:
  assumes sorted: "sorted_wrt (>) arr" and ne: "arr \<noteq> []" and D: "int D - int (arr ! 0) > 8"
    and x: "0 \<le> x" "x \<le> 255"
  shows "(x * pow_sum arr) div 2 ^ D = 0"
proof -
  obtain e rest where arr: "arr = e # rest" using ne by (cases arr) auto
  have lt: "pow_sum arr < 2 ^ Suc e" unfolding arr using sorted [unfolded arr] by (rule pow_sum_lt)
  have "x * pow_sum arr \<le> 255 * pow_sum arr"
    using x pow_sum_nonneg [of arr] by (intro mult_right_mono) simp_all
  also have "\<dots> < 256 * 2 ^ Suc e" using lt pow_sum_nonneg [of arr] by linarith
  also have "(256::int) * 2 ^ Suc e = 2 ^ (e + 9)" by (simp add: power_add)
  also have "\<dots> \<le> 2 ^ D" using D unfolding arr by (intro power_increasing) simp_all
  finally have "x * pow_sum arr < 2 ^ D" .
  moreover have "0 \<le> x * pow_sum arr" using x pow_sum_nonneg [of arr] by simp
  ultimately show ?thesis by (rule div_pos_pos_trivial [rotated])
qed

text \<open>
  C1: for every multiplier \<open>i\<close> from 1 to \<open>2 ^ divpow\<close> with \<open>divpow\<close> at most
  \<^verbatim>\<open>MAXPOWER2\<close> (the pairs that the command line and the search pass to
  \<^verbatim>\<open>generateCode\<close>), the sequence emitted before \<^verbatim>\<open>optimizeCode\<close> runs leaves in the
  accumulator, for every 8-bit input, exactly the input times \<open>i\<close> divided by
  \<open>2 ^ divpow\<close>, rounded down.
\<close>

theorem builder_correct:
  assumes "1 \<le> i" "i \<le> 2 ^ divpow" "divpow \<le> MAXPOWER2"
  shows "\<exists>built numpowers. buildCode [] i divpow = Some (built, numpowers) \<and>
           uint (regA (run built s)) = (uint (regA s) * i) div 2 ^ divpow"
proof -
  define arr where "arr = decompose i"
  define np where "np = pruned_numpowers arr"
  define x where "x = uint (regA s)"
  have x: "0 \<le> x" "x \<le> 255" unfolding x_def using uint_lt_256 [of "regA s"] by simp_all
  have v: "sorted_wrt (>) arr" "pow_sum arr = i" "arr \<noteq> []" "arr ! 0 \<le> divpow"
    "1 < length arr \<longrightarrow> arr ! 0 < divpow"
    unfolding arr_def using valid_decompose [OF assms] by simp_all
  have np: "np = length (prune_list arr)" "take np arr = prune_list arr"
    unfolding np_def by (rule pruned_numpowers_eq, rule take_pruned_numpowers)
  have np1: "1 \<le> np" "np \<le> length arr"
    unfolding np(1) using prune_list_nonempty [OF v(3)] prune_list_length_le [of arr]
    by (simp_all add: Suc_le_eq)
  show ?thesis
  proof (cases "int divpow - int (arr ! 0) > 8")
    case True
    have "buildCode [] i divpow = Some ([Xor_a, Ret], 1)"
      using True v(3) unfolding buildCode_eq Let_def arr_def [symmetric] by simp
    moreover have "uint (regA (run [Xor_a, Ret] s)) = (x * i) div 2 ^ divpow"
      using zero_exact [OF v(1) v(3) True x] v(2) by simp
    ultimately show ?thesis unfolding x_def by blast
  next
    case False
    define built where "built = (if np > 1 then [Ld_ba] else []) @ term_loop arr np (np - 1) [] @
                    final_shifts arr np divpow @ [Ret]"
    have b: "buildCode [] i divpow = Some (built, np)"
      using False v(3) unfolding buildCode_eq Let_def arr_def [symmetric] np_def [symmetric] built_def
      by simp
    have "uint (regA (run built s)) = (x * pow_sum (take np arr)) div 2 ^ divpow"
    proof (cases "np > 1")
      case True
      then have "arr ! 0 < divpow" using v(5) np1(2) by simp
      from many_terms_sem [OF v(1) True np1(2) this, of s] True show ?thesis
        unfolding built_def x_def by simp
    next
      case False
      then have one: "np = 1" using np1(1) by simp
      have "take 1 arr = [arr ! 0]" using v(3) by (cases arr) simp_all
      then have "pow_sum (take np arr) = 2 ^ (arr ! 0)" unfolding one by simp
      with single_term_sem [OF v(4), of s] show ?thesis
        unfolding built_def one x_def by simp
    qed
    also have "\<dots> = (x * i) div 2 ^ divpow"
      unfolding np(2) using pruned_exact [OF v(1) v(3) v(4) x] v(2) by simp
    finally show ?thesis using b unfolding x_def by blast
  qed
qed

theorem builder_correct_witness:
  "(1::int) \<le> 17 \<and> (17::int) \<le> 2 ^ 8 \<and> 8 \<le> MAXPOWER2 \<and>
   (\<exists>built numpowers. buildCode [] 17 8 = Some (built, numpowers) \<and>
      uint (regA (run built \<lparr>regA = 255, regB = 0, carry = False\<rparr>)) = 16)"
  using builder_correct [of 17 8 "\<lparr>regA = 255, regB = 0, carry = False\<rparr>"]
  by (simp add: MAXPOWER2_def)

section \<open>Use of the auxiliary register\<close>

lemma switch_no_b:
  "filter uses_b (fst (rra_switch n)) = []"
  "filter uses_b (fst (srl_switch n)) = []"
  by (simp_all add: rra_switch_def srl_switch_def uses_b_def)

lemma peephole_uses_b: "filter uses_b (peephole p) = filter uses_b p"
proof (induction p rule: length_induct)
  case (1 p)
  show ?case
  proof (cases p)
    case Nil
    then show ?thesis by (simp add: peephole.simps)
  next
    case (Cons l ls)
    define n where "n = length (takeWhile (\<lambda>x. x = Srl_a) ls)"
    define rest where "rest = drop n ls"
    have ls: "ls = replicate n Srl_a @ rest"
      unfolding n_def rest_def by (rule split_run)
    have IH: "filter uses_b (peephole rest) = filter uses_b rest"
      "filter uses_b (peephole ls) = filter uses_b ls"
      using 1 unfolding rest_def Cons by simp_all
    have fl: "filter uses_b ls = filter uses_b rest"
      by (subst ls) (simp add: uses_b_def)
    consider (A) "l = Rra" "peephole (l # ls) = fst (rra_switch n) @ peephole rest"
      | (B) "l = Srl_a" "peephole (l # ls) = fst (srl_switch (Suc n)) @ peephole rest"
      | (C) "peephole (l # ls) = l # peephole ls"
      using peephole_Cons [of l ls] unfolding Let_def n_def [symmetric] rest_def [symmetric]
      by (auto split: if_splits)
    then show ?thesis
    proof cases
      case A
      have "filter uses_b (peephole p) =
          filter uses_b (fst (rra_switch n)) @ filter uses_b (peephole rest)"
        using A by (simp add: Cons)
      also have "\<dots> = filter uses_b rest" using IH by (simp add: switch_no_b)
      also have "\<dots> = filter uses_b p" using fl A(1) by (simp add: Cons uses_b_def)
      finally show ?thesis .
    next
      case B
      have "filter uses_b (peephole p) =
          filter uses_b (fst (srl_switch (Suc n))) @ filter uses_b (peephole rest)"
        using B by (simp add: Cons)
      also have "\<dots> = filter uses_b rest" using IH by (simp add: switch_no_b)
      also have "\<dots> = filter uses_b p" using fl B(1) by (simp add: Cons uses_b_def)
      finally show ?thesis .
    next
      case C
      then show ?thesis unfolding Cons using IH by simp
    qed
  qed
qed

lemma peephole_set_b: "l = Ld_ba \<or> l = Add_b \<Longrightarrow> l \<in> set (peephole p) \<longleftrightarrow> l \<in> set p"
proof -
  assume l: "l = Ld_ba \<or> l = Add_b"
  have "l \<in> set (filter uses_b (peephole p)) \<longleftrightarrow> l \<in> set (filter uses_b p)"
    by (simp only: peephole_uses_b)
  with l show ?thesis by (auto simp: uses_b_def)
qed

lemma peephole_ld: "peephole (Ld_ba # ls) = Ld_ba # peephole ls"
  by (simp add: peephole_Cons Let_def)

lemma segment_b: "Add_b \<in> set (segment sh d)" "sh \<noteq> Ld_ba \<Longrightarrow> Ld_ba \<notin> set (segment sh d)"
  by (auto simp: segment_def)

lemma term_loop_b:
  "Ld_ba \<notin> set (term_loop arr np j [])" "Add_b \<in> set (term_loop arr np j []) \<longleftrightarrow> 0 < j"
proof -
  show "Ld_ba \<notin> set (term_loop arr np j [])"
  proof (induction j)
    case 0
    show ?case by simp
  next
    case (Suc j)
    then show ?case unfolding term_loop_Suc by (simp add: segment_b first_shift_def)
  qed
  show "Add_b \<in> set (term_loop arr np j []) \<longleftrightarrow> 0 < j"
  proof (cases j)
    case 0
    then show ?thesis by simp
  next
    case (Suc k)
    show ?thesis unfolding Suc term_loop_Suc by (simp add: segment_b)
  qed
qed

lemma final_b: "Ld_ba \<notin> set (final_shifts arr np divpow)" "Add_b \<notin> set (final_shifts arr np divpow)"
  by (simp_all add: final_shifts_def)

lemma gen3_12:
  "generateCode [] 3 12 =
     Some \<lparr>code = [Xor_a, Ret], sizeResult = 2, speedResult = 4, registersUsed = Only_use_a\<rparr>"
  by code_simp

lemma pruned_3: "pruned_decomposition 3 = [1, 0]"
  by code_simp

text \<open>
  C9, as stated, fails: for the multiplier 3 and \<^verbatim>\<open>divpow\<close> 12 the pruned decomposition has
  two terms, and the routine is the always-zero one, which neither uses the auxiliary
  register nor is flagged as destroying it.
\<close>

theorem b_register_counterexample:
  "1 < length (pruned_decomposition 3) \<and>
   map_option code (generateCode [] 3 12) = Some [Xor_a, Ret] \<and>
   map_option registersUsed (generateCode [] 3 12) = Some Only_use_a"
  by (simp add: gen3_12 pruned_3)

text \<open>
  C9, amended: in every generated routine, the auxiliary register is used (an instruction
  that loads it or adds it occurs), the routine is flagged as destroying it, and the
  routine starts by saving the input into it with the load-register-from-accumulator
  instruction, if and only if the pruned decomposition has more than one term and its most
  significant exponent is at most 8 below \<^verbatim>\<open>divpow\<close> (the routine is not the always-zero
  one).
\<close>

theorem b_register_usage:
  assumes "generateCode [] i divpow = Some r"
  shows "((Ld_ba \<in> set (code r) \<or> Add_b \<in> set (code r)) \<longleftrightarrow>
            (1 < length (pruned_decomposition i) \<and> int divpow - int (hd (pruned_decomposition i)) \<le> 8)) \<and>
         (registersUsed r = Destroys_b \<longleftrightarrow>
            (1 < length (pruned_decomposition i) \<and> int divpow - int (hd (pruned_decomposition i)) \<le> 8)) \<and>
         ((\<exists>rest. code r = Ld_ba # rest) \<longleftrightarrow>
            (1 < length (pruned_decomposition i) \<and> int divpow - int (hd (pruned_decomposition i)) \<le> 8))"
proof -
  define arr where "arr = decompose i"
  define n where "n = pruned_numpowers arr"
  obtain built np where b: "buildCode [] i divpow = Some (built, np)"
    using assms by (auto simp: generateCode_def split: option.splits)
  have r: "code r = peephole built" "registersUsed r = (if np > 1 then Destroys_b else Only_use_a)"
    using assms b by (auto simp: generateCode_def optimizeCode_eq Let_def split: prod.splits)
  have c: "arr \<noteq> []"
    "if int divpow - int (arr ! 0) > 8 then built = [Xor_a, Ret] \<and> np = 1
     else np = n \<and> built = (if np > 1 then [Ld_ba] else []) @ term_loop arr np (np - 1) [] @
                       final_shifts arr np divpow @ [Ret]"
    using buildCode_cases [OF b] unfolding arr_def n_def by simp_all
  have pd: "pruned_decomposition i = prune_list arr"
    unfolding pruned_decomposition_def arr_def by (rule take_pruned_numpowers)
  obtain e rest where arr: "arr = e # rest" using c(1) by (cases arr) auto
  have hd: "hd (pruned_decomposition i) = arr ! 0"
    unfolding pd arr using prune_list_Cons [of e rest] by auto
  have len: "length (pruned_decomposition i) = n"
    unfolding pd n_def by (simp add: pruned_numpowers_eq)
  have sets: "(Ld_ba \<in> set (code r) \<or> Add_b \<in> set (code r)) = (Ld_ba \<in> set built \<or> Add_b \<in> set built)"
    unfolding r by (simp add: peephole_set_b)
  show ?thesis
  proof (cases "int divpow - int (arr ! 0) > 8")
    case True
    with c(2) have "built = [Xor_a, Ret]" "np = 1" by simp_all
    moreover have "peephole [Xor_a, Ret] = [Xor_a, Ret]"
      using optimize_xor by (simp only: optimizeCode_eq)
    ultimately show ?thesis using True unfolding sets hd unfolding r by simp
  next
    case False
    with c(2) have np: "np = n"
      and built: "built = (if np > 1 then [Ld_ba] else []) @ term_loop arr np (np - 1) [] @
                       final_shifts arr np divpow @ [Ret]" by simp_all
    have 1: "(Ld_ba \<in> set built \<or> Add_b \<in> set built) \<longleftrightarrow> 1 < np"
      unfolding built using term_loop_b [of arr np "np - 1"] final_b [of arr np divpow] by auto
    have 2: "(\<exists>rest. peephole built = Ld_ba # rest) \<longleftrightarrow> 1 < np"
    proof (cases "1 < np")
      case True
      then show ?thesis unfolding built by (simp add: peephole_ld)
    next
      case False
      then have "Ld_ba \<notin> set (code r)" using 1 unfolding sets [symmetric] by simp
      then show ?thesis using False unfolding r by auto
    qed
    show ?thesis
      unfolding sets 1 hd len unfolding r 2 using False np by simp
  qed
qed

theorem b_register_usage_witness:
  "generateCode [] 3 2 =
     Some \<lparr>code = [Ld_ba, Srl_a, Add_b, Rra, Ret], sizeResult = 6, speedResult = 8,
           registersUsed = Destroys_b\<rparr> \<and>
   1 < length (pruned_decomposition 3) \<and> int 2 - int (hd (pruned_decomposition 3)) \<le> 8"
proof -
  have g: "generateCode [] 3 2 =
     Some \<lparr>code = [Ld_ba, Srl_a, Add_b, Rra, Ret], sizeResult = 6, speedResult = 8,
           registersUsed = Destroys_b\<rparr>" by code_simp
  from b_register_usage [OF g] show ?thesis using g by simp
qed

section \<open>The two buffers are large enough\<close>

lemma sorted_gap:
  "sorted_wrt (>) (arr :: nat list) \<Longrightarrow> j < length arr \<Longrightarrow> arr ! j + j \<le> arr ! 0"
proof (induction j)
  case 0
  then show ?case by simp
next
  case (Suc j)
  then have "arr ! Suc j < arr ! j" by (intro sorted_nth_less)
  with Suc show ?case by simp
qed

lemma count_srl_replicate [simp]: "count_list (replicate k Srl_a) Srl_a = k"
  by (induction k) simp_all

lemma segment_length:
  "0 < d \<Longrightarrow> int (length (segment sh d)) = d + 1"
  "0 < d \<Longrightarrow> int (count_list (segment sh d) Srl_a) = d - 1 + (if sh = Srl_a then 1 else 0)"
  by (simp_all add: segment_def)

lemma term_loop_length:
  assumes "sorted_wrt (>) arr"
  shows "j < length arr \<Longrightarrow>
         int (length (term_loop arr np j [])) = int (arr ! 0) - int (arr ! j) + int j"
proof (induction j)
  case 0
  then show ?case by simp
next
  case (Suc j)
  have "arr ! Suc j < arr ! j" using assms Suc.prems by (rule sorted_nth_less)
  then have d: "0 < int (arr ! j) - int (arr ! Suc j)" by simp
  show ?case
    unfolding term_loop_Suc using Suc segment_length(1) [OF d] by simp
qed

lemma term_loop_count:
  assumes "sorted_wrt (>) arr"
  shows "j < length arr \<Longrightarrow> j \<le> np - 1 \<Longrightarrow>
         int (count_list (term_loop arr np j []) Srl_a) =
           int (arr ! 0) - int (arr ! j) - int j + (if 0 < j \<and> j = np - 1 then 1 else 0)"
proof (induction j)
  case 0
  then show ?case by simp
next
  case (Suc j)
  have "arr ! Suc j < arr ! j" using assms Suc.prems(1) by (rule sorted_nth_less)
  then have d: "0 < int (arr ! j) - int (arr ! Suc j)" by simp
  have IH: "int (count_list (term_loop arr np j []) Srl_a) = int (arr ! 0) - int (arr ! j) - int j"
    using Suc by simp
  have fs: "(first_shift np (Suc j) = Srl_a) = (Suc j = np - 1)" by (simp add: first_shift_def)
  show ?case
    unfolding term_loop_Suc using IH segment_length(2) [OF d] fs by simp
qed

lemma switch_length:
  "n \<in> {4, 5, 6, 7} \<Longrightarrow> 3 * length (fst (rra_switch n)) \<le> 3 + 4 * n"
  "n \<in> {2, 3, 4, 5, 6, 7} \<Longrightarrow>
     3 * length (fst (srl_switch (Suc n))) \<le> 4 + 4 * n"
  by (auto simp: rra_switch_def srl_switch_def)

lemma peephole_length:
  "3 * length (peephole p) \<le> 3 * length p + count_list p Srl_a"
proof (induction p rule: length_induct)
  case (1 p)
  show ?case
  proof (cases p)
    case Nil
    then show ?thesis by (simp add: peephole.simps)
  next
    case (Cons l ls)
    define n where "n = length (takeWhile (\<lambda>x. x = Srl_a) ls)"
    define rest where "rest = drop n ls"
    have ls: "ls = replicate n Srl_a @ rest"
      unfolding n_def rest_def by (rule split_run)
    have IH: "3 * length (peephole rest) \<le> 3 * length rest + count_list rest Srl_a"
      "3 * length (peephole ls) \<le> 3 * length ls + count_list ls Srl_a"
    proof -
      have "length rest < length p" "length ls < length p" unfolding rest_def Cons by simp_all
      then show "3 * length (peephole rest) \<le> 3 * length rest + count_list rest Srl_a"
        "3 * length (peephole ls) \<le> 3 * length ls + count_list ls Srl_a"
        using 1 by blast+
    qed
    have len: "length ls = n + length rest" "count_list ls Srl_a = n + count_list rest Srl_a"
      by (subst ls, simp)+
    consider (A) "l = Rra" "n \<in> {4, 5, 6, 7}"
        "peephole (l # ls) = fst (rra_switch n) @ peephole rest"
      | (B) "l = Srl_a" "n \<in> {2, 3, 4, 5, 6, 7}"
        "peephole (l # ls) = fst (srl_switch (Suc n)) @ peephole rest"
      | (C) "peephole (l # ls) = l # peephole ls"
      using peephole_Cons [of l ls] unfolding Let_def n_def [symmetric] rest_def [symmetric]
      by (auto split: if_splits)
    then show ?thesis
    proof cases
      case A
      show ?thesis unfolding Cons A(3) using switch_length(1) [OF A(2)] IH(1) len A(1) by simp
    next
      case B
      show ?thesis unfolding Cons B(3) using switch_length(2) [OF B(2)] IH(1) len B(1) by simp
    next
      case C
      show ?thesis unfolding Cons C using IH(2) by simp
    qed
  qed
qed

lemma bound_arith:
  fixes a0 ak k d :: int
  assumes "ak + k \<le> a0" "a0 < d" "d \<le> 24" "0 \<le> ak"
  shows "3 * (2 + (a0 - ak + k) + (d - a0)) + (a0 - ak - k + 1 + (d - a0 - 1)) \<le> 148"
proof -
  have "3 * (2 + (a0 - ak + k) + (d - a0)) + (a0 - ak - k + 1 + (d - a0 - 1)) =
        6 + 4 * d + 2 * k - 4 * ak" by simp
  also have "\<dots> \<le> 148" using assms by linarith
  finally show ?thesis .
qed

text \<open>
  The multipliers that the search passes to \<^verbatim>\<open>generateCode\<close> lie in the range of the
  theorem below: for a divisor from 2 on the multiplier of the exponent \<open>k\<close> is between 1
  and \<open>2 ^ k\<close>, and for a power of two the multiplier is 1.
\<close>

lemma approx_value_range:
  assumes "2 \<le> d"
  shows "1 \<le> approx_value d k \<and> approx_value d k \<le> 2 ^ k"
proof -
  have "0 \<le> (2::int) ^ k div d" using assms by (intro pos_imp_zdiv_nonneg_iff [THEN iffD2]) simp_all
  moreover have "(2::int) ^ k div d < 2 ^ k" using assms by (intro int_div_less_self) simp_all
  ultimately show ?thesis by (simp add: approx_value_def)
qed

text \<open>
  C10: for every pair that the program passes to \<^verbatim>\<open>generateCode\<close> (a multiplier from 1 to
  \<open>2 ^ divpow\<close>, \<^verbatim>\<open>divpow\<close> at most \<^verbatim>\<open>MAXPOWER2\<close>), the sequence built in \<^verbatim>\<open>resultLines\<close>, the
  sequence that \<^verbatim>\<open>optimizeCode\<close> collects in \<^verbatim>\<open>resultLinesTemp\<close> and the sequence copied
  back have at most 50 entries each. The sequences only grow by appending, so no store of
  \<^verbatim>\<open>addLine\<close> or \<^verbatim>\<open>addLineTemp\<close> falls outside the 50 entries of its array.
\<close>

theorem buffers_bounded:
  assumes "1 \<le> i" "i \<le> 2 ^ divpow" "divpow \<le> MAXPOWER2"
  shows "\<exists>built numpowers. buildCode [] i divpow = Some (built, numpowers) \<and>
           length built \<le> 50 \<and> length (opt_loop built 0 []) \<le> 50 \<and>
           length (optimizeCode built) \<le> 50"
proof -
  define arr where "arr = decompose i"
  define np where "np = pruned_numpowers arr"
  have v: "sorted_wrt (>) arr" "arr \<noteq> []" "arr ! 0 \<le> divpow"
    "1 < length arr \<longrightarrow> arr ! 0 < divpow"
    unfolding arr_def using valid_decompose [OF assms] by simp_all
  have D: "divpow \<le> 24" using assms(3) by (simp add: MAXPOWER2_def)
  have np1: "1 \<le> np" "np \<le> length arr"
    unfolding np_def pruned_numpowers_eq
    using prune_list_nonempty [OF v(2)] prune_list_length_le [of arr]
    by (simp_all add: Suc_le_eq)
  have opt: "opt_loop built 0 [] = peephole built" "optimizeCode built = peephole built" for built
    by (simp_all add: opt_loop_eq optimizeCode_eq)
  have goal: "length built \<le> 50 \<and> length (opt_loop built 0 []) \<le> 50 \<and>
           length (optimizeCode built) \<le> 50"
    if "length built \<le> 49" "3 * length built + count_list built Srl_a \<le> 148" for built
    unfolding opt using that peephole_length [of built] by simp
  show ?thesis
  proof (cases "int divpow - int (arr ! 0) > 8")
    case True
    have "buildCode [] i divpow = Some ([Xor_a, Ret], 1)"
      using True v(2) unfolding buildCode_eq Let_def arr_def [symmetric] by simp
    moreover have "length [Xor_a, Ret] \<le> 49"
      "3 * length [Xor_a, Ret] + count_list [Xor_a, Ret] Srl_a \<le> 148" by simp_all
    ultimately show ?thesis using goal by blast
  next
    case False
    define built where "built = (if np > 1 then [Ld_ba] else []) @ term_loop arr np (np - 1) [] @
                    final_shifts arr np divpow @ [Ret]"
    have b: "buildCode [] i divpow = Some (built, np)"
      using False v(2) unfolding buildCode_eq Let_def arr_def [symmetric] np_def [symmetric] built_def
      by simp
    have "length built \<le> 49 \<and> 3 * length built + count_list built Srl_a \<le> 148"
    proof (cases "np > 1")
      case True
      then have a0: "arr ! 0 < divpow" using v(4) np1(2) by simp
      have k: "np - 1 < length arr" using np1 True by simp
      have gap: "arr ! (np - 1) + (np - 1) \<le> arr ! 0" using v(1) k by (rule sorted_gap)
      have T: "int (length (term_loop arr np (np - 1) [])) =
                 int (arr ! 0) - int (arr ! (np - 1)) + int (np - 1)"
        "int (count_list (term_loop arr np (np - 1) []) Srl_a) =
                 int (arr ! 0) - int (arr ! (np - 1)) - int (np - 1) + 1"
        using term_loop_length [OF v(1) k, of np] term_loop_count [OF v(1) k, of np] True
        by simp_all
      have F: "final_shifts arr np divpow = Rra # replicate (divpow - arr ! 0 - 1) Srl_a"
        using a0 True by (rule final_many)
      have len: "int (length built) =
          2 + int (length (term_loop arr np (np - 1) [])) + int (divpow - arr ! 0)"
        unfolding built_def F using True a0 by simp
      have cnt: "int (count_list built Srl_a) =
          int (count_list (term_loop arr np (np - 1) []) Srl_a) + int (divpow - arr ! 0 - 1)"
        unfolding built_def F using True by simp
      have d: "int (divpow - arr ! 0) = int divpow - int (arr ! 0)"
        "int (divpow - arr ! 0 - 1) = int divpow - int (arr ! 0) - 1"
        using a0 by simp_all
      have g: "int (arr ! (np - 1)) + int (np - 1) \<le> int (arr ! 0)"
        "int (arr ! 0) < int divpow" "int divpow \<le> 24" "0 \<le> int (arr ! (np - 1))"
        using gap a0 D by simp_all
      have "int (length built) \<le> 49"
        unfolding len cnt T d using g by linarith
      moreover have "3 * int (length built) + int (count_list built Srl_a) \<le> 148"
        unfolding len cnt T d using g by (intro bound_arith)
      ultimately show ?thesis by linarith
    next
      case False
      then have one: "np = 1" using np1(1) by simp
      have F: "final_shifts arr 1 divpow = replicate (divpow - arr ! 0) Srl_a"
        using v(3) by (rule final_single)
      have "divpow - arr ! 0 \<le> 8" using \<open>\<not> 8 < int divpow - int (arr ! 0)\<close> by simp
      then show ?thesis unfolding built_def one F by simp
    qed
    then show ?thesis using goal b by blast
  qed
qed

theorem buffers_bounded_witness:
  "(1::int) \<le> 16777215 \<and> (16777215::int) \<le> 2 ^ 24 \<and> 24 \<le> MAXPOWER2 \<and>
   (\<exists>built numpowers. buildCode [] 16777215 24 = Some (built, numpowers) \<and>
      length built \<le> 50 \<and> length (opt_loop built 0 []) \<le> 50 \<and>
      length (optimizeCode built) \<le> 50)"
  using buffers_bounded [of 16777215 24] by (simp add: MAXPOWER2_def)

section \<open>The approximation search\<close>

lemma approx_correct_passes: "approx_correct d k = passes d k"
  by (simp add: approx_correct_def passes_def approx_value_def list_all_iff)

lemma search_step_plain:
  assumes "d \<noteq> 2 ^ k"
  shows "search_step d k st =
    (if passes d k then map_option (\<lambda>s. (s, 200)) (call_generateCode (approx_value d k) k st)
     else Some (st, k))"
  using assms by (simp add: search_step_def approx_correct_passes)

lemma search_loop_done: "MAXPOWER2 < k \<Longrightarrow> search_loop d k st = Some st"
  by (subst search_loop.simps) simp

lemma search_loop_find:
  assumes np2: "\<And>k. k \<le> MAXPOWER2 \<Longrightarrow> d \<noteq> 2 ^ k"
  shows "k \<le> MAXPOWER2 + 1 \<Longrightarrow>
         search_loop d k st =
           (case find (passes d) [k..<MAXPOWER2 + 1] of
              None \<Rightarrow> Some st
            | Some k' \<Rightarrow> call_generateCode (approx_value d k') k' st)"
proof (induction "MAXPOWER2 + 1 - k" arbitrary: k)
  case 0
  then have "k = MAXPOWER2 + 1" by simp
  then show ?case by (simp add: search_loop_done)
next
  case (Suc n)
  then have k: "k \<le> MAXPOWER2" by simp
  then have up: "[k..<MAXPOWER2 + 1] = k # [Suc k..<MAXPOWER2 + 1]"
    by (simp add: upt_conv_Cons)
  show ?case
  proof (cases "passes d k")
    case True
    have "search_loop d k st =
        (case call_generateCode (approx_value d k) k st of None \<Rightarrow> None
         | Some s \<Rightarrow> search_loop d 201 s)"
      using k True search_step_plain [OF np2 [OF k], of st]
      by (subst search_loop.simps) (simp split: option.splits)
    also have "\<dots> = call_generateCode (approx_value d k) k st"
      by (simp add: search_loop_done MAXPOWER2_def split: option.splits)
    finally show ?thesis using True unfolding up by simp
  next
    case False
    have "search_loop d k st = search_loop d (k + 1) st"
      using k False search_step_plain [OF np2 [OF k], of st]
      by (subst search_loop.simps) simp
    also have "\<dots> = (case find (passes d) [k + 1..<MAXPOWER2 + 1] of
              None \<Rightarrow> Some st
            | Some k' \<Rightarrow> call_generateCode (approx_value d k') k' st)"
      using Suc.hyps(2) k by (intro Suc.hyps(1)) simp_all
    finally show ?thesis using False unfolding up by simp
  qed
qed

lemma search_not_power:
  assumes "\<And>k. k \<le> MAXPOWER2 \<Longrightarrow> d \<noteq> 2 ^ k"
  shows "findApproximation d = search_spec d"
proof -
  have "search_loop d 0 ([], []) =
     (case find (passes d) [0..<MAXPOWER2 + 1] of
        None \<Rightarrow> Some ([], [])
      | Some k' \<Rightarrow> call_generateCode (approx_value d k') k' ([], []))"
    using assms by (intro search_loop_find) simp_all
  then show ?thesis
    by (simp add: findApproximation_def search_spec_def first_passing_def call_generateCode_def
        approx_value_def option.map_comp comp_def split: option.splits)
qed

lemma search_loop_skip:
  "(\<And>k'. k0 \<le> k' \<Longrightarrow> k' < k \<Longrightarrow> d \<noteq> 2 ^ k' \<and> \<not> passes d k') \<Longrightarrow>
   k0 \<le> k \<Longrightarrow> k \<le> MAXPOWER2 + 1 \<Longrightarrow> search_loop d k0 st = search_loop d k st"
proof (induction "k - k0" arbitrary: k0)
  case 0
  then show ?case by simp
next
  case (Suc n)
  then have lt: "k0 < k" and k0: "k0 \<le> MAXPOWER2" by simp_all
  have np: "d \<noteq> 2 ^ k0" "\<not> passes d k0" using Suc.prems(1) [of k0] lt by simp_all
  have "search_loop d k0 st = search_loop d (k0 + 1) st"
    using k0 np search_step_plain [OF np(1), of st]
    by (subst search_loop.simps) simp
  also have "\<dots> = search_loop d k st"
  proof (rule Suc.hyps(1))
    show "n = k - (k0 + 1)" using Suc.hyps(2) by simp
    show "k0 + 1 \<le> k" using lt by simp
    show "k \<le> MAXPOWER2 + 1" by (rule Suc.prems(3))
    show "d \<noteq> 2 ^ k' \<and> \<not> passes d k'" if "k0 + 1 \<le> k'" "k' < k" for k'
      using Suc.prems(1) [of k'] that by simp
  qed
  finally show ?case .
qed

lemma pow_div_zero: "k' < k \<Longrightarrow> (2::int) ^ k' div 2 ^ k = 0"
  by (intro div_pos_pos_trivial) simp_all

lemma pow_le_255: "k' \<le> 7 \<Longrightarrow> (2::int) ^ k' \<le> 255"
proof -
  assume "k' \<le> 7"
  then have "(2::int) ^ k' \<le> 2 ^ 7" by (intro power_increasing) simp_all
  then show ?thesis by simp
qed

lemma not_passes_below:
  assumes "k' < k" "k' \<le> 7"
  shows "\<not> passes (2 ^ k) k'"
proof
  assume "passes (2 ^ k) k'"
  moreover have "(2::int) ^ k' \<in> {0..255}" using pow_le_255 [OF assms(2)] by simp
  ultimately have "(2::int) ^ k' div 2 ^ k = ((2 ^ k' div 2 ^ k + 1) * 2 ^ k') div 2 ^ k'"
    unfolding passes_def by blast
  then show False by (simp add: pow_div_zero [OF assms(1)])
qed

lemma not_passes_self:
  assumes "k \<le> 8"
  shows "\<not> passes (2 ^ k) k"
proof (cases k)
  case 0
  show ?thesis
  proof
    assume "passes (2 ^ k) k"
    moreover have "(1::int) \<in> {0..255}" by simp
    ultimately have "(1::int) div 2 ^ k = ((2 ^ k div 2 ^ k + 1) * 1) div 2 ^ k"
      unfolding passes_def by blast
    then show False unfolding 0 by simp
  qed
next
  case (Suc m)
  show ?thesis
  proof
    assume "passes (2 ^ k) k"
    moreover have "(2::int) ^ m \<in> {0..255}" using pow_le_255 [of m] assms Suc by simp
    ultimately have "(2::int) ^ m div 2 ^ k = ((2 ^ k div 2 ^ k + 1) * 2 ^ m) div 2 ^ k"
      unfolding passes_def by blast
    moreover have "(2::int) ^ m div 2 ^ k = 0" unfolding Suc by (rule pow_div_zero) simp
    ultimately show False unfolding Suc by simp
  qed
qed

lemma passes_8:
  assumes "9 \<le> k"
  shows "passes (2 ^ k) 8"
proof -
  have "(256::int) \<le> 2 ^ k"
    using power_increasing [of 8 k "2::int"] assms by simp
  then have "j div 2 ^ k = 0" if "j \<in> {0..255}" for j :: int
    using that by (intro div_pos_pos_trivial) simp_all
  moreover have "(2::int) ^ 8 div 2 ^ k = 0" using assms by (intro pow_div_zero) simp
  ultimately show ?thesis by (simp add: passes_def)
qed

lemma call_generateCode_fresh:
  "map_option snd (call_generateCode i k ([], [])) = map_option (\<lambda>r. [r]) (generateCode [] i k)"
  by (simp add: call_generateCode_def split: option.splits)

lemma search_small_power:
  assumes "k \<le> 8"
  shows "findApproximation (2 ^ k) = map_option (\<lambda>r. [r]) (generateCode [] 1 k)"
proof -
  define d :: int where "d = 2 ^ k"
  have k: "k \<le> MAXPOWER2" using assms by (simp add: MAXPOWER2_def)
  have "search_loop d 0 ([], []) = search_loop d k ([], [])"
  proof (rule search_loop_skip)
    fix k' assume "k' < k"
    then show "d \<noteq> 2 ^ k' \<and> \<not> passes d k'"
      unfolding d_def using not_passes_below [of k' k] assms by simp
  qed (use k in simp_all)
  also have "\<dots> = (case call_generateCode 1 k ([], []) of None \<Rightarrow> None
                    | Some s \<Rightarrow> search_loop d 201 s)"
    using k not_passes_self [OF assms]
    by (subst search_loop.simps)
       (simp add: search_step_def approx_correct_passes d_def split: option.splits)
  also have "\<dots> = call_generateCode 1 k ([], [])"
    by (simp add: search_loop_done MAXPOWER2_def split: option.splits)
  finally show ?thesis
    unfolding findApproximation_def d_def by (simp only: call_generateCode_fresh)
qed

lemma decompose_1: "decompose 1 = [0]"
  by code_simp

lemma search_large_power:
  assumes "9 \<le> k" "k \<le> MAXPOWER2"
  shows "findApproximation (2 ^ k) = map_option (\<lambda>r. [r]) (generateCode [] 1 k)"
proof -
  define d :: int where "d = 2 ^ k"
  have ne: "d \<noteq> 2 ^ k'" if "k' \<le> 8" for k' unfolding d_def using that assms(1) by simp
  have "search_loop d 0 ([], []) = search_loop d 8 ([], [])"
  proof (rule search_loop_skip)
    fix k' :: nat assume "k' < 8"
    then show "d \<noteq> 2 ^ k' \<and> \<not> passes d k'"
      using ne [of k'] not_passes_below [of k' k] assms(1) unfolding d_def by simp
  qed (simp_all add: MAXPOWER2_def)
  also have "\<dots> = (case call_generateCode (approx_value d 8) 8 ([], []) of None \<Rightarrow> None
                    | Some s \<Rightarrow> search_loop d 201 s)"
    using passes_8 [OF assms(1)] search_step_plain [OF ne [of 8], of "([], [])"]
    by (subst search_loop.simps) (simp add: d_def MAXPOWER2_def split: option.splits)
  also have "\<dots> = call_generateCode (approx_value d 8) 8 ([], [])"
    by (simp add: search_loop_done MAXPOWER2_def split: option.splits)
  also have "approx_value d 8 = 1"
    unfolding approx_value_def d_def using pow_div_zero [of 8 k] assms(1) by simp
  finally have "findApproximation d = map_option (\<lambda>r. [r]) (generateCode [] 1 8)"
    unfolding findApproximation_def by (simp only: call_generateCode_fresh)
  moreover have "generateCode [] 1 8 = generateCode [] 1 k"
  proof -
    have "generateCode [] 1 8 = Some \<lparr>code = [Xor_a, Ret], sizeResult = 2, speedResult = 4,
        registersUsed = Only_use_a\<rparr>" by code_simp
    moreover have "generateCode [] 1 k = Some \<lparr>code = [Xor_a, Ret], sizeResult = 2, speedResult = 4,
        registersUsed = Only_use_a\<rparr>"
      using assms(1) by (intro zero_generate [OF decompose_1]) simp
    ultimately show ?thesis by simp
  qed
  ultimately show ?thesis unfolding d_def by simp
qed




section \<open>The search finds an approximation for every integer divisor\<close>

lemma passes_16:
  assumes d: "2 \<le> d" "d \<le> 255"
  shows "passes d 16"
  unfolding passes_def
proof
  fix j :: int assume "j \<in> {0..255}"
  then have j: "0 \<le> j" "j \<le> 255" by simp_all
  define Q where "Q = 65536 div d"
  define R where "R = 65536 mod d"
  define q where "q = j div d"
  define r where "r = j mod d"
  have e1: "65536 = Q * d + R" unfolding Q_def R_def by simp
  have e2: "j = q * d + r" unfolding q_def r_def by simp
  have R: "0 \<le> R" "R < d" unfolding R_def using d by simp_all
  have r: "0 \<le> r" "r < d" unfolding r_def using d by simp_all
  have q: "0 \<le> q" unfolding q_def using j d by (simp add: pos_imp_zdiv_nonneg_iff)
  have "(65536::int) div 255 \<le> 65536 div d" using d by (intro zdiv_mono2) simp_all
  then have Q: "257 \<le> Q" unfolding Q_def by simp
  define T where "T = q * (d - R) + (Q + 1) * r"
  have "(Q + 1) * j = q * (Q * d + R) + T"
    unfolding T_def by (subst e2) (simp add: algebra_simps)
  then have prod: "(Q + 1) * j = T + 65536 * q" using e1 by simp
  have T0: "0 \<le> T" unfolding T_def using q R r Q by simp
  have "q * (d - R) \<le> q * d" using q R by (intro mult_left_mono) simp_all
  moreover have "Q * r \<le> Q * (d - 1)" using r Q by (intro mult_left_mono) simp_all
  ultimately have "T \<le> (q * d + r) + Q * (d - 1)" unfolding T_def by (simp add: algebra_simps)
  also have "\<dots> = j + (Q * d - Q)" using e2 by (simp add: algebra_simps)
  also have "\<dots> = j + (65536 - R - Q)" using e1 by simp
  also have "\<dots> < 65536" using j R Q by simp
  finally have T1: "T < 65536" .
  have "((Q + 1) * j) div 65536 = q"
    unfolding prod using T0 T1 by (simp add: div_pos_pos_trivial)
  then show "j div d = ((2 ^ 16 div d + 1) * j) div 2 ^ 16"
    unfolding Q_def q_def by simp
qed

lemma passes_8_large:
  assumes "256 < d"
  shows "passes d 8"
proof -
  have "(2::int) ^ 8 div d = 0" using assms by (intro div_pos_pos_trivial) simp_all
  moreover have "j div d = 0" if "j \<in> {0..255}" for j
    using that assms by (intro div_pos_pos_trivial) simp_all
  ultimately show ?thesis by (simp add: passes_def)
qed

lemma some_exponent_passes:
  assumes "1 \<le> d" and "\<And>k. k \<le> MAXPOWER2 \<Longrightarrow> d \<noteq> 2 ^ k"
  shows "\<exists>k \<in> set [0..<MAXPOWER2 + 1]. passes d k"
proof -
  have "d \<noteq> 1" using assms(2) [of 0] by simp
  moreover have "d \<noteq> 256" using assms(2) [of 8] by (simp add: MAXPOWER2_def)
  ultimately consider "2 \<le> d \<and> d \<le> 255" | "256 < d" using assms(1) by linarith
  then show ?thesis
  proof cases
    case 1
    then have "passes d 16" by (intro passes_16) simp_all
    then show ?thesis by (auto simp: MAXPOWER2_def intro!: bexI [of _ 16])
  next
    case 2
    then have "passes d 8" by (rule passes_8_large)
    then show ?thesis by (auto simp: MAXPOWER2_def intro!: bexI [of _ 8])
  qed
qed

lemma find_exists: "\<exists>x \<in> set xs. P x \<Longrightarrow> \<exists>y. find P xs = Some y \<and> y \<in> set xs"
  by (induction xs) auto

lemma generateCode_Some:
  assumes "decompose i \<noteq> []"
  shows "\<exists>r. generateCode [] i divpow = Some r"
  using assms unfolding generateCode_def buildCode_eq Let_def
  by (auto split: prod.splits)

lemma decompose_nonempty:
  assumes "1 \<le> i" "i \<le> 2 ^ k" "k \<le> MAXPOWER2"
  shows "decompose i \<noteq> []"
  using valid_decompose [OF assms] by simp

lemma search_never_exhausted:
  assumes "1 \<le> d"
  shows "\<exists>r. findApproximation d = Some [r]"
proof (cases "\<exists>k \<le> MAXPOWER2. d = 2 ^ k")
  case True
  then obtain k where k: "k \<le> MAXPOWER2" "d = 2 ^ k" by blast
  have "findApproximation d = map_option (\<lambda>r. [r]) (generateCode [] 1 k)"
    unfolding k(2) using search_small_power [of k] search_large_power [of k] k(1)
    by (cases "k \<le> 8") simp_all
  moreover obtain r where "generateCode [] 1 k = Some r"
    using generateCode_Some [of 1 k] decompose_1 by auto
  ultimately show ?thesis by simp
next
  case False
  then have np: "\<And>k. k \<le> MAXPOWER2 \<Longrightarrow> d \<noteq> 2 ^ k" by blast
  have d2: "2 \<le> d" using np [of 0] assms by simp
  obtain k where k: "first_passing d = Some k" "k \<in> set [0..<MAXPOWER2 + 1]"
    unfolding first_passing_def
    using find_exists [OF some_exponent_passes [OF assms np]] by blast
  have kle: "k \<le> MAXPOWER2" using k(2) by auto
  have "decompose (approx_value d k) \<noteq> []"
    using approx_value_range [OF d2, of k] kle by (intro decompose_nonempty [of _ k]) simp_all
  then obtain r where "generateCode [] (2 ^ k div d + 1) k = Some r"
    using generateCode_Some [of "approx_value d k" k] by (auto simp: approx_value_def)
  then show ?thesis
    using search_not_power [OF np] k(1) by (simp add: search_spec_def)
qed

end
